theory Spec2Isabelle
  imports
    Main
    "HOL-Library.Char_ord"
    "HOL-Library.List_Lexorder"
    "HOL-Library.Multiset"
    "HOL-Library.Sublist"
begin

section \<open>Strings and slices of strings\<close>

text \<open>
  A Go string is a sequence of bytes, and so is a HOL \<^typ>\<open>string\<close>. Go compares
  strings byte by byte, a proper prefix being smaller: this is the order that
  \<open>Char_ord\<close> and \<open>List_Lexorder\<close> give \<^typ>\<open>string\<close>, so \<open>sort.Strings\<close> is
  \<^const>\<open>sort\<close>. (The library sort is not stable, but equal strings cannot be told
  apart, so the sorted slice is determined.)
\<close>

subsection \<open>StrsEquals\<close>

text \<open>
  \<^verbatim>\<open>for i, v := range a { if v != b[i] { return false } }; return true\<close>
  The index \<open>i\<close> runs over \<open>a\<close>; the guard on the lengths keeps \<open>b[i]\<close> in range.
\<close>

fun StrsEquals_loop :: "string list \<Rightarrow> string list \<Rightarrow> nat \<Rightarrow> bool" where
  "StrsEquals_loop [] b i = True"
| "StrsEquals_loop (v # a) b i =
     (if v \<noteq> b ! i then False else StrsEquals_loop a b (Suc i))"

text \<open>
  \<open>StrsEquals\<close> sorts the two slices it is given in place. On two slices that do not
  overlap in memory, as the results of two resolutions are, each sort leaves the other
  slice alone, and the call is a function of the two contents: it returns, with the
  boolean, the contents of \<open>a\<close> and of \<open>b\<close> after the call. When the lengths differ
  it returns before sorting. This is the form the retry loops use; that it is
  \<open>StrsEquals_mem\<close> below on slices that do not overlap is lemma
  \<open>StrsEquals_mem_separate\<close>.
\<close>

definition StrsEquals :: "string list \<Rightarrow> string list \<Rightarrow> bool \<times> string list \<times> string list" where
  "StrsEquals a b =
     (if length a \<noteq> length b then (False, a, b)
      else let a' = sort a; b' = sort b in (StrsEquals_loop a' b' 0, a', b'))"

text \<open>
  \<open>StrsEquals\<close> on any two slices. A slice is a window on a backing array: the store
  \<open>mem\<close> holds the strings of all arrays, one after the other, and a slice is the
  index \<open>ptr\<close> of its first element and its length \<open>len\<close>. Slices of different
  arrays, or of different parts of one array, do not overlap; two slices of one array
  may. \<open>sort.Strings\<close> sorts the window in place, and the second sort works on the
  store the first one left. The model returns the boolean and the store.
\<close>

record slice =
  ptr :: nat
  len :: nat

definition in_store :: "string list \<Rightarrow> slice \<Rightarrow> bool" where
  "in_store mem s = (ptr s + len s \<le> length mem)"

definition elems :: "string list \<Rightarrow> slice \<Rightarrow> string list" where
  "elems mem s = take (len s) (drop (ptr s) mem)"

definition overlap :: "slice \<Rightarrow> slice \<Rightarrow> bool" where
  "overlap a b = (max (ptr a) (ptr b) < min (ptr a + len a) (ptr b + len b))"

definition sort_Strings :: "string list \<Rightarrow> slice \<Rightarrow> string list" where
  "sort_Strings mem s =
     take (ptr s) mem @ sort (elems mem s) @ drop (ptr s + len s) mem"

definition StrsEquals_mem :: "string list \<Rightarrow> slice \<Rightarrow> slice \<Rightarrow> bool \<times> string list" where
  "StrsEquals_mem mem a b =
     (if len a \<noteq> len b then (False, mem)
      else let mem = sort_Strings mem a;
               mem = sort_Strings mem b
           in (StrsEquals_loop (elems mem a) (elems mem b) 0, mem))"

section \<open>The shard replication graph (topo/replication.go)\<close>

text \<open>
  \<open>TabletAlias\<close> is declared elsewhere in package \<open>topo\<close>; the code here compares
  aliases and asks \<open>parent.IsZero()\<close>, so the alias is a type parameter and \<open>IsZero\<close>
  a parameter of the model.
\<close>

record 'ta ReplicationLink =
  TabletAlias :: 'ta
  Parent :: 'ta

record 'ta ShardReplication =
  ReplicationLinks :: "'ta ReplicationLink list"

text \<open>
  The loop of the update function \<open>f\<close> of \<open>AddShardReplicationRecord\<close>, over the links
  still to visit, with the slice \<open>links\<close> built so far and the flag \<open>found\<close>.
\<close>

fun AddShardReplicationRecord_f_loop ::
  "('ta \<Rightarrow> bool) \<Rightarrow> 'ta \<Rightarrow> 'ta \<Rightarrow> 'ta ReplicationLink list \<Rightarrow>
   'ta ReplicationLink list \<Rightarrow> bool \<Rightarrow> 'ta ReplicationLink list \<times> bool" where
  "AddShardReplicationRecord_f_loop IsZero tabletAlias parent [] links found = (links, found)"
| "AddShardReplicationRecord_f_loop IsZero tabletAlias parent (link # rest) links found =
     (if TabletAlias link = tabletAlias then
        (if found then
           AddShardReplicationRecord_f_loop IsZero tabletAlias parent rest links found
         else if IsZero parent then
           AddShardReplicationRecord_f_loop IsZero tabletAlias parent rest links True
         else
           AddShardReplicationRecord_f_loop IsZero tabletAlias parent rest
             (links @ [link\<lparr>Parent := parent\<rparr>]) True)
      else
        AddShardReplicationRecord_f_loop IsZero tabletAlias parent rest (links @ [link]) found)"

text \<open>The update function itself: it returns the new object and the error \<open>nil\<close>.\<close>

definition AddShardReplicationRecord_f ::
  "('ta \<Rightarrow> bool) \<Rightarrow> 'ta \<Rightarrow> 'ta \<Rightarrow> 'ta ShardReplication \<Rightarrow> 'ta ShardReplication \<times> string option" where
  "AddShardReplicationRecord_f IsZero tabletAlias parent sr =
     (case AddShardReplicationRecord_f_loop IsZero tabletAlias parent (ReplicationLinks sr) [] False of
        (links, found) \<Rightarrow>
          let links' = (if \<not> found \<and> \<not> IsZero parent
                        then links @ [\<lparr>TabletAlias = tabletAlias, Parent = parent\<rparr>]
                        else links)
          in (sr\<lparr>ReplicationLinks := links'\<rparr>, None))"

section \<open>The Resolver (vtgate/resolver.go)\<close>

subsection \<open>Errors, collaborators and the record of their calls\<close>

text \<open>
  Modelled from the spec: the codes of a ShardConnError (the constants of package
  \<open>tabletconn\<close> are declared outside these sources). The spec gives the closed set
  OK, RETRY, FATAL, TX_POOL_FULL, NOT_SERVING and leaves the rest open.
\<close>

datatype conn_code =
  ERR_OK | ERR_RETRY | ERR_FATAL | ERR_TX_POOL_FULL | ERR_NOT_SERVING | ERR_OTHER int

text \<open>
  A Go \<open>error\<close> is either a \<open>*ShardConnError\<close>, with its code and its message, or
  any other error, with its message. A call returning \<open>(value, error)\<close> is a sum:
  \<open>Inl\<close> the error, \<open>Inr\<close> the value.
\<close>

datatype error = ShardConnError conn_code string | PlainError string

text \<open>
  \<^verbatim>\<open>connError, ok := err.(*ShardConnError); ok && connError.Code == tabletconn.ERR_RETRY\<close>
\<close>

fun is_ERR_RETRY :: "error \<Rightarrow> bool" where
  "is_ERR_RETRY (ShardConnError code msg) = (code = ERR_RETRY)"
| "is_ERR_RETRY (PlainError msg) = False"

text \<open>
  The Resolver's collaborators are not part of these sources: the methods of
  ScatterConn, the topology lookup \<open>getKeyspaceAlias\<close> and the resolution callback
  \<open>mapToShards\<close>. They read a topology that changes under the request and they
  change connections and sessions, so each is a parameter of the model that takes the
  state of the world \<open>'w\<close> and returns its result with the new state. The opaque
  \<open>context\<close> handle is passed through untouched and is left to that state.

  The model keeps the record of the calls it makes, in order: the keyspace a
  resolution was asked for and its error if any, the keyspace an alias was asked for
  and what came back, the keyspace and shard list of a dispatch to ScatterConn and its
  error if any.
\<close>

datatype event =
  Resolve string "error option"
| Alias string "error + string"
| Dispatch string "string list" "error option"

fun is_Dispatch :: "event \<Rightarrow> bool" where
  "is_Dispatch (Dispatch keyspace shards err) = True"
| "is_Dispatch ev = False"

text \<open>The errors that a resolution or a dispatch returned, as an event records them.\<close>

fun event_error :: "event \<Rightarrow> error option" where
  "event_error (Resolve keyspace err) = err"
| "event_error (Dispatch keyspace shards err) = err"
| "event_error (Alias keyspace r) = None"

text \<open>Modelled from the spec: \<open>TabletType\<close> is a role label (master, replica, ...).\<close>

type_synonym TabletType = string

subsection \<open>Execute\<close>

text \<open>
  The \<open>for\<close> loop of \<open>Resolver.Execute\<close>, from the state at the top of an iteration:
  the current \<open>keyspace\<close> and \<open>shards\<close>, the calls made so far and the world. The loop
  has no bound, so it is a partial function: \<open>None\<close> is the run that never returns.
  Inside the \<open>if\<close> the source declares a new \<open>err\<close> twice; the \<open>err\<close> tested and
  returned after the block is the one of the dispatch.
\<close>

partial_function (option) Execute_loop ::
  "(string \<Rightarrow> 'bv \<Rightarrow> string \<Rightarrow> string list \<Rightarrow> TabletType \<Rightarrow> 's \<Rightarrow> 'w \<Rightarrow> (error + 'r) \<times> 'w) \<Rightarrow>
   (string \<Rightarrow> TabletType \<Rightarrow> 'w \<Rightarrow> (error + string) \<times> 'w) \<Rightarrow>
   (string \<Rightarrow> 'w \<Rightarrow> (error + string list) \<times> 'w) \<Rightarrow>
   string \<Rightarrow> 'bv \<Rightarrow> TabletType \<Rightarrow> 's \<Rightarrow> string \<Rightarrow> string list \<Rightarrow> event list \<Rightarrow> 'w \<Rightarrow>
   ((error + 'r) \<times> event list \<times> 'w) option" where
  "Execute_loop scatterConn_Execute getKeyspaceAlias mapToShards sql bindVars tabletType session
       keyspace shards tr w =
     (case scatterConn_Execute sql bindVars keyspace shards tabletType session w of
        (Inr qr, w1) \<Rightarrow> Some (Inr qr, tr @ [Dispatch keyspace shards None], w1)
      | (Inl err, w1) \<Rightarrow>
          let tr1 = tr @ [Dispatch keyspace shards (Some err)] in
          if is_ERR_RETRY err then
            (case getKeyspaceAlias keyspace tabletType w1 of
               (lookup, w2) \<Rightarrow>
                 let tr2 = tr1 @ [Alias keyspace lookup];
                     changed = (case lookup of Inr newKeyspace \<Rightarrow> newKeyspace \<noteq> keyspace
                                | Inl err' \<Rightarrow> False);
                     keyspace' = (case lookup of
                                    Inr newKeyspace \<Rightarrow> if changed then newKeyspace else keyspace
                                  | Inl err' \<Rightarrow> keyspace)
                 in
                   (case mapToShards keyspace' w2 of
                      (Inl err', w3) \<Rightarrow> Some (Inl err', tr2 @ [Resolve keyspace' (Some err')], w3)
                    | (Inr newShards, w3) \<Rightarrow>
                        let tr3 = tr2 @ [Resolve keyspace' None] in
                        (case StrsEquals newShards shards of
                           (equal, newShards', shards') \<Rightarrow>
                             let shards'' = (if \<not> equal then newShards' else shards');
                                 resharding = (changed \<or> \<not> equal)
                             in
                               if resharding then
                                 Execute_loop scatterConn_Execute getKeyspaceAlias mapToShards
                                   sql bindVars tabletType session keyspace' shards'' tr3 w3
                               else Some (Inl err, tr3, w3))))
          else Some (Inl err, tr1, w1))"

text \<open>\<open>Resolver.Execute\<close>: resolve once, then loop.\<close>

definition Execute ::
  "(string \<Rightarrow> 'bv \<Rightarrow> string \<Rightarrow> string list \<Rightarrow> TabletType \<Rightarrow> 's \<Rightarrow> 'w \<Rightarrow> (error + 'r) \<times> 'w) \<Rightarrow>
   (string \<Rightarrow> TabletType \<Rightarrow> 'w \<Rightarrow> (error + string) \<times> 'w) \<Rightarrow>
   string \<Rightarrow> 'bv \<Rightarrow> string \<Rightarrow> TabletType \<Rightarrow> 's \<Rightarrow>
   (string \<Rightarrow> 'w \<Rightarrow> (error + string list) \<times> 'w) \<Rightarrow> 'w \<Rightarrow>
   ((error + 'r) \<times> event list \<times> 'w) option" where
  "Execute scatterConn_Execute getKeyspaceAlias sql bindVars keyspace tabletType session
       mapToShards w =
     (case mapToShards keyspace w of
        (Inl err, w0) \<Rightarrow> Some (Inl err, [Resolve keyspace (Some err)], w0)
      | (Inr shards, w0) \<Rightarrow>
          Execute_loop scatterConn_Execute getKeyspaceAlias mapToShards sql bindVars tabletType
            session keyspace shards [Resolve keyspace None] w0)"

subsection \<open>ExecuteBatch\<close>

text \<open>
  \<open>Resolver.ExecuteBatch\<close> has the loop of \<open>Execute\<close>, around
  \<open>ScatterConn.ExecuteBatch\<close> and the list of queries.
\<close>

partial_function (option) ExecuteBatch_loop ::
  "('q \<Rightarrow> string \<Rightarrow> string list \<Rightarrow> TabletType \<Rightarrow> 's \<Rightarrow> 'w \<Rightarrow> (error + 'r) \<times> 'w) \<Rightarrow>
   (string \<Rightarrow> TabletType \<Rightarrow> 'w \<Rightarrow> (error + string) \<times> 'w) \<Rightarrow>
   (string \<Rightarrow> 'w \<Rightarrow> (error + string list) \<times> 'w) \<Rightarrow>
   'q \<Rightarrow> TabletType \<Rightarrow> 's \<Rightarrow> string \<Rightarrow> string list \<Rightarrow> event list \<Rightarrow> 'w \<Rightarrow>
   ((error + 'r) \<times> event list \<times> 'w) option" where
  "ExecuteBatch_loop scatterConn_ExecuteBatch getKeyspaceAlias mapToShards queries tabletType
       session keyspace shards tr w =
     (case scatterConn_ExecuteBatch queries keyspace shards tabletType session w of
        (Inr qrs, w1) \<Rightarrow> Some (Inr qrs, tr @ [Dispatch keyspace shards None], w1)
      | (Inl err, w1) \<Rightarrow>
          let tr1 = tr @ [Dispatch keyspace shards (Some err)] in
          if is_ERR_RETRY err then
            (case getKeyspaceAlias keyspace tabletType w1 of
               (lookup, w2) \<Rightarrow>
                 let tr2 = tr1 @ [Alias keyspace lookup];
                     changed = (case lookup of Inr newKeyspace \<Rightarrow> newKeyspace \<noteq> keyspace
                                | Inl err' \<Rightarrow> False);
                     keyspace' = (case lookup of
                                    Inr newKeyspace \<Rightarrow> if changed then newKeyspace else keyspace
                                  | Inl err' \<Rightarrow> keyspace)
                 in
                   (case mapToShards keyspace' w2 of
                      (Inl err', w3) \<Rightarrow> Some (Inl err', tr2 @ [Resolve keyspace' (Some err')], w3)
                    | (Inr newShards, w3) \<Rightarrow>
                        let tr3 = tr2 @ [Resolve keyspace' None] in
                        (case StrsEquals newShards shards of
                           (equal, newShards', shards') \<Rightarrow>
                             let shards'' = (if \<not> equal then newShards' else shards');
                                 resharding = (changed \<or> \<not> equal)
                             in
                               if resharding then
                                 ExecuteBatch_loop scatterConn_ExecuteBatch getKeyspaceAlias
                                   mapToShards queries tabletType session keyspace' shards'' tr3 w3
                               else Some (Inl err, tr3, w3))))
          else Some (Inl err, tr1, w1))"

definition ExecuteBatch ::
  "('q \<Rightarrow> string \<Rightarrow> string list \<Rightarrow> TabletType \<Rightarrow> 's \<Rightarrow> 'w \<Rightarrow> (error + 'r) \<times> 'w) \<Rightarrow>
   (string \<Rightarrow> TabletType \<Rightarrow> 'w \<Rightarrow> (error + string) \<times> 'w) \<Rightarrow>
   'q \<Rightarrow> string \<Rightarrow> TabletType \<Rightarrow> 's \<Rightarrow>
   (string \<Rightarrow> 'w \<Rightarrow> (error + string list) \<times> 'w) \<Rightarrow> 'w \<Rightarrow>
   ((error + 'r) \<times> event list \<times> 'w) option" where
  "ExecuteBatch scatterConn_ExecuteBatch getKeyspaceAlias queries keyspace tabletType session
       mapToShards w =
     (case mapToShards keyspace w of
        (Inl err, w0) \<Rightarrow> Some (Inl err, [Resolve keyspace (Some err)], w0)
      | (Inr shards, w0) \<Rightarrow>
          ExecuteBatch_loop scatterConn_ExecuteBatch getKeyspaceAlias mapToShards queries
            tabletType session keyspace shards [Resolve keyspace None] w0)"

subsection \<open>StreamExecute\<close>

text \<open>
  \<open>Resolver.StreamExecute\<close> has no loop: one resolution, the test on the number of
  shards, one call of \<open>ScatterConn.StreamExecute\<close>, whose error (or \<open>nil\<close>) it
  returns. The message is the one of \<^verbatim>\<open>fmt.Errorf("Resolved to more than one shard")\<close>.
\<close>

definition StreamExecute ::
  "(string \<Rightarrow> 'bv \<Rightarrow> string \<Rightarrow> string list \<Rightarrow> TabletType \<Rightarrow> 's \<Rightarrow> 'k \<Rightarrow> 'w \<Rightarrow> error option \<times> 'w) \<Rightarrow>
   string \<Rightarrow> 'bv \<Rightarrow> string \<Rightarrow> TabletType \<Rightarrow> 's \<Rightarrow>
   (string \<Rightarrow> 'w \<Rightarrow> (error + string list) \<times> 'w) \<Rightarrow> 'k \<Rightarrow> 'w \<Rightarrow>
   error option \<times> event list \<times> 'w" where
  "StreamExecute scatterConn_StreamExecute sql bindVars keyspace tabletType session
       mapToShards sendReply w =
     (case mapToShards keyspace w of
        (Inl err, w1) \<Rightarrow> (Some err, [Resolve keyspace (Some err)], w1)
      | (Inr shards, w1) \<Rightarrow>
          if length shards \<noteq> 1 then
            (Some (PlainError ''Resolved to more than one shard''), [Resolve keyspace None], w1)
          else
            (case scatterConn_StreamExecute sql bindVars keyspace shards tabletType session
                    sendReply w1 of
               (err, w2) \<Rightarrow> (err, [Resolve keyspace None, Dispatch keyspace shards err], w2)))"

subsection \<open>The Go library functions used on SQL text\<close>

text \<open>
  SQL text is taken to be ASCII. On an ASCII string \<open>strings.ToLower\<close> maps the bytes
  \<open>A\<close> to \<open>Z\<close> to \<open>a\<close> to \<open>z\<close> and keeps the length, so an index found in the
  lower-cased copy is an index of the original. Runes outside ASCII, which Go
  lower-cases by the Unicode tables (sometimes to an encoding of another length), are
  outside this model: the general theorems of the claims about SQL text assume
  \<open>isASCII\<close>.
\<close>

definition isASCII :: "string \<Rightarrow> bool" where
  "isASCII s = list_all (\<lambda>c. c < CHR 0x80) s"

definition toLowerByte :: "char \<Rightarrow> char" where
  "toLowerByte c =
     (if CHR ''A'' \<le> c \<and> c \<le> CHR ''Z'' then char_of (of_char c + (32::nat)) else c)"

definition ToLower :: "string \<Rightarrow> string" where
  "ToLower s = map toLowerByte s"

text \<open>
  \<open>strings.Index(s, substr)\<close>: the index of the first instance of \<open>substr\<close> in \<open>s\<close>,
  or \<open>-1\<close> when there is none. \<open>strings.Contains\<close> is \<open>Index(s, substr) >= 0\<close>.
\<close>

fun Index_from :: "string \<Rightarrow> string \<Rightarrow> int \<Rightarrow> int" where
  "Index_from [] substr i = (if substr = [] then i else - 1)"
| "Index_from (c # s) substr i =
     (if prefix substr (c # s) then i else Index_from s substr (i + 1))"

definition Index :: "string \<Rightarrow> string \<Rightarrow> int" where
  "Index s substr = Index_from s substr 0"

definition Contains :: "string \<Rightarrow> string \<Rightarrow> bool" where
  "Contains s substr = (Index s substr \<ge> 0)"

text \<open>
  \<open>fmt.Sprintf("%v", i)\<close> for the index \<open>i\<close> of a \<open>range\<close> loop, which is never
  negative: the decimal digits of \<open>i\<close>.
\<close>

definition digit :: "nat \<Rightarrow> char" where
  "digit d = char_of (48 + d)"

fun itoa :: "nat \<Rightarrow> string" where
  "itoa n = (if n < 10 then [digit n] else itoa (n div 10) @ [digit (n mod 10)])"

declare itoa.simps [simp del]

subsection \<open>insertSqlClause\<close>

text \<open>
  The source rebinds \<open>idxExtra\<close> after each search and writes to the buffer \<open>b\<close> piece
  by piece; the \<open>let\<close> chain follows it line by line. \<open>querySql[:idxExtra]\<close> and
  \<open>querySql[idxExtra:]\<close> are in range, since \<open>idxExtra\<close> is never above the length.
\<close>

definition insertSqlClause :: "string \<Rightarrow> string \<Rightarrow> string" where
  "insertSqlClause querySql clause =
     (let sql = ToLower querySql;
          idxExtra = int (length sql);
          idxGroupBy = Index sql '' group by'';
          idxExtra = (if idxGroupBy > 0 \<and> idxGroupBy < idxExtra then idxGroupBy else idxExtra);
          idxOrderBy = Index sql '' order by'';
          idxExtra = (if idxOrderBy > 0 \<and> idxOrderBy < idxExtra then idxOrderBy else idxExtra);
          idxLimit = Index sql '' limit'';
          idxExtra = (if idxLimit > 0 \<and> idxLimit < idxExtra then idxLimit else idxExtra);
          idxForUpdate = Index sql '' for update'';
          idxExtra = (if idxForUpdate > 0 \<and> idxForUpdate < idxExtra then idxForUpdate
                      else idxExtra);
          b = take (nat idxExtra) querySql;
          b = (if Contains sql ''where'' then b @ '' and '' else b @ '' where '');
          b = b @ clause;
          b = (if idxExtra < int (length sql) then b @ drop (nat idxExtra) querySql else b)
      in b)"

subsection \<open>buildEntityIds\<close>

text \<open>
  \<open>key.KeyspaceId\<close> is a string type. A bind variable is an \<open>interface{}\<close>: it holds
  a keyspace id, as \<open>buildEntityIds\<close> stores them, or any other value.
\<close>

type_synonym KeyspaceId = string

datatype 'b iface = KeyspaceIdV KeyspaceId | OtherV 'b

type_synonym 'b BindVars = "string \<rightharpoonup> 'b iface"

text \<open>
  The inner loop \<^verbatim>\<open>for i, kid := range kids\<close>, over the ids still to visit, with the
  index \<open>i\<close>, the map \<open>bindVar\<close> and the buffer \<open>b\<close>.
\<close>

fun buildEntityIds_kids ::
  "string \<Rightarrow> KeyspaceId list \<Rightarrow> nat \<Rightarrow> 'b BindVars \<Rightarrow> string \<Rightarrow> 'b BindVars \<times> string" where
  "buildEntityIds_kids entityColName [] i bindVar b = (bindVar, b)"
| "buildEntityIds_kids entityColName (kid # kids) i bindVar b =
     (let bvName = entityColName @ itoa i;
          bindVar = bindVar(bvName \<mapsto> KeyspaceIdV kid);
          b = (if i > 0 then b @ '', '' else b);
          b = b @ '':'' @ bvName
      in buildEntityIds_kids entityColName kids (Suc i) bindVar b)"

text \<open>
  The outer loop \<^verbatim>\<open>for shard, kids := range shardMap\<close>. Go visits a map in an order
  of its choosing, so \<open>shardMap\<close> is the list of the entries of the map in the order
  this \<open>range\<close> visits them; its keys are distinct. Cloning \<open>qBindVars\<close> entry by
  entry into the fresh map \<open>bindVar\<close> gives \<open>qBindVars\<close> itself.
\<close>

fun buildEntityIds_shards ::
  "(string \<times> KeyspaceId list) list \<Rightarrow> string \<Rightarrow> string \<Rightarrow> 'b BindVars \<Rightarrow>
   string list \<times> (string \<rightharpoonup> string) \<times> (string \<rightharpoonup> 'b BindVars) \<Rightarrow>
   string list \<times> (string \<rightharpoonup> string) \<times> (string \<rightharpoonup> 'b BindVars)" where
  "buildEntityIds_shards [] qSql entityColName qBindVars (shards, sqls, bindVars) =
     (shards, sqls, bindVars)"
| "buildEntityIds_shards ((shard, kids) # rest) qSql entityColName qBindVars
       (shards, sqls, bindVars) =
     (let b = entityColName;
          b = b @ '' in ('';
          bindVar = qBindVars
      in case buildEntityIds_kids entityColName kids 0 bindVar b of
           (bindVar, b) \<Rightarrow>
             let b = b @ '')'';
                 shards = shards @ [shard];
                 sqls = sqls(shard \<mapsto> insertSqlClause qSql b);
                 bindVars = bindVars(shard \<mapsto> bindVar)
             in buildEntityIds_shards rest qSql entityColName qBindVars (shards, sqls, bindVars))"

definition buildEntityIds ::
  "(string \<times> KeyspaceId list) list \<Rightarrow> string \<Rightarrow> string \<Rightarrow> 'b BindVars \<Rightarrow>
   string list \<times> (string \<rightharpoonup> string) \<times> (string \<rightharpoonup> 'b BindVars)" where
  "buildEntityIds shardMap qSql entityColName qBindVars =
     buildEntityIds_shards shardMap qSql entityColName qBindVars ([], Map.empty, Map.empty)"

subsection \<open>ExecuteEntityIds\<close>

text \<open>
  The fields of \<open>proto.EntityIdsQuery\<close> that the Resolver reads (the declaration is
  outside these sources). The map from entity values to keyspace ids is only handed
  to the topology, so its type is a parameter.
\<close>

record ('b, 'm, 's) EntityIdsQuery =
  Sql :: string
  BindVariables :: "'b BindVars"
  Keyspace :: string
  EntityColumnName :: string
  EntityKeyspaceIdMap :: 'm
  TabletType :: TabletType
  Session :: 's

text \<open>
  The loop of \<open>Resolver.ExecuteEntityIds\<close>. The keyspace is a field of the caller's
  query, which the loop overwrites, so the query is part of the loop's state and of
  what is returned.
\<close>

partial_function (option) ExecuteEntityIds_loop ::
  "(string list \<Rightarrow> (string \<rightharpoonup> string) \<Rightarrow> (string \<rightharpoonup> 'b BindVars) \<Rightarrow> string \<Rightarrow> TabletType \<Rightarrow>
      's \<Rightarrow> 'w \<Rightarrow> (error + 'r) \<times> 'w) \<Rightarrow>
   (string \<Rightarrow> TabletType \<Rightarrow> 'w \<Rightarrow> (error + string) \<times> 'w) \<Rightarrow>
   (string \<Rightarrow> 'm \<Rightarrow> TabletType \<Rightarrow> 'w \<Rightarrow> (error + (string \<times> KeyspaceId list) list) \<times> 'w) \<Rightarrow>
   ('b, 'm, 's) EntityIdsQuery \<Rightarrow>
   string list \<Rightarrow> (string \<rightharpoonup> string) \<Rightarrow> (string \<rightharpoonup> 'b BindVars) \<Rightarrow> event list \<Rightarrow> 'w \<Rightarrow>
   ((error + 'r) \<times> ('b, 'm, 's) EntityIdsQuery \<times> event list \<times> 'w) option" where
  "ExecuteEntityIds_loop scatterConn_ExecuteEntityIds getKeyspaceAlias mapEntityIdsToShards
       query shards sqls bindVars tr w =
     (case scatterConn_ExecuteEntityIds shards sqls bindVars (Keyspace query) (TabletType query)
             (Session query) w of
        (Inr qr, w1) \<Rightarrow> Some (Inr qr, query, tr @ [Dispatch (Keyspace query) shards None], w1)
      | (Inl err, w1) \<Rightarrow>
          let tr1 = tr @ [Dispatch (Keyspace query) shards (Some err)] in
          if is_ERR_RETRY err then
            (case getKeyspaceAlias (Keyspace query) (TabletType query) w1 of
               (lookup, w2) \<Rightarrow>
                 let tr2 = tr1 @ [Alias (Keyspace query) lookup];
                     changed = (case lookup of Inr newKeyspace \<Rightarrow> newKeyspace \<noteq> Keyspace query
                                | Inl err' \<Rightarrow> False);
                     query' = (case lookup of
                                 Inr newKeyspace \<Rightarrow>
                                   if changed then query\<lparr>Keyspace := newKeyspace\<rparr> else query
                               | Inl err' \<Rightarrow> query)
                 in
                   (case mapEntityIdsToShards (Keyspace query') (EntityKeyspaceIdMap query')
                           (TabletType query') w2 of
                      (Inl err', w3) \<Rightarrow>
                        Some (Inl err', query', tr2 @ [Resolve (Keyspace query') (Some err')], w3)
                    | (Inr newShardMap, w3) \<Rightarrow>
                        let tr3 = tr2 @ [Resolve (Keyspace query') None] in
                        (case buildEntityIds newShardMap (Sql query') (EntityColumnName query')
                                (BindVariables query') of
                           (newShards, newSqls, newBindVars) \<Rightarrow>
                             (case StrsEquals newShards shards of
                                (equal, newShards', shards') \<Rightarrow>
                                  let shards'' = (if \<not> equal then newShards' else shards');
                                      sqls'' = (if \<not> equal then newSqls else sqls);
                                      bindVars'' = (if \<not> equal then newBindVars else bindVars);
                                      resharding = (changed \<or> \<not> equal)
                                  in
                                    if resharding then
                                      ExecuteEntityIds_loop scatterConn_ExecuteEntityIds
                                        getKeyspaceAlias mapEntityIdsToShards query' shards''
                                        sqls'' bindVars'' tr3 w3
                                    else Some (Inl err, query', tr3, w3)))))
          else Some (Inl err, query, tr1, w1))"

definition ExecuteEntityIds ::
  "(string list \<Rightarrow> (string \<rightharpoonup> string) \<Rightarrow> (string \<rightharpoonup> 'b BindVars) \<Rightarrow> string \<Rightarrow> TabletType \<Rightarrow>
      's \<Rightarrow> 'w \<Rightarrow> (error + 'r) \<times> 'w) \<Rightarrow>
   (string \<Rightarrow> TabletType \<Rightarrow> 'w \<Rightarrow> (error + string) \<times> 'w) \<Rightarrow>
   (string \<Rightarrow> 'm \<Rightarrow> TabletType \<Rightarrow> 'w \<Rightarrow> (error + (string \<times> KeyspaceId list) list) \<times> 'w) \<Rightarrow>
   ('b, 'm, 's) EntityIdsQuery \<Rightarrow> 'w \<Rightarrow>
   ((error + 'r) \<times> ('b, 'm, 's) EntityIdsQuery \<times> event list \<times> 'w) option" where
  "ExecuteEntityIds scatterConn_ExecuteEntityIds getKeyspaceAlias mapEntityIdsToShards query w =
     (case mapEntityIdsToShards (Keyspace query) (EntityKeyspaceIdMap query) (TabletType query) w of
        (Inl err, w0) \<Rightarrow> Some (Inl err, query, [Resolve (Keyspace query) (Some err)], w0)
      | (Inr shardMap, w0) \<Rightarrow>
          (case buildEntityIds shardMap (Sql query) (EntityColumnName query)
                  (BindVariables query) of
             (shards, sqls, bindVars) \<Rightarrow>
               ExecuteEntityIds_loop scatterConn_ExecuteEntityIds getKeyspaceAlias
                 mapEntityIdsToShards query shards sqls bindVars
                 [Resolve (Keyspace query) None] w0))"

section \<open>The words of the specification\<close>

text \<open>
  The splice of the specification (section 4.4), in its own words: lower-case the SQL
  for scanning only; find the leftmost occurrence of each of the four keywords; the
  splice index is the minimum of those found, the end of the string when none is; the
  prefix is \<open>and\<close> when the lower-cased SQL contains \<open>where\<close>, else \<open>where\<close>; the
  result is \<open>sql[:idx] + prefix + clause + sql[idx:]\<close>.
\<close>

definition clause_keywords :: "string list" where
  "clause_keywords = ['' group by'', '' order by'', '' limit'', '' for update'']"

definition insert_sql_clause_spec :: "string \<Rightarrow> string \<Rightarrow> string" where
  "insert_sql_clause_spec querySql clause =
     (let sql = ToLower querySql;
          found = filter (\<lambda>idx. idx \<ge> 0) (map (Index sql) clause_keywords);
          idx = nat (fold min found (int (length sql)));
          pre = (if Contains sql ''where'' then '' and '' else '' where '')
      in take idx querySql @ pre @ clause @ drop idx querySql)"

text \<open>
  How often a string occurs in another, and the property the specification asks of a
  double insertion: each clause occurs exactly once, the first before the second.
\<close>

fun occurrences :: "string \<Rightarrow> string \<Rightarrow> nat" where
  "occurrences [] substr = (if substr = [] then 1 else 0)"
| "occurrences (c # s) substr =
     (if prefix substr (c # s) then 1 else 0) + occurrences s substr"

definition once_each_in_order :: "string \<Rightarrow> string \<Rightarrow> string \<Rightarrow> bool" where
  "once_each_in_order s c1 c2 =
     (occurrences s c1 = 1 \<and> occurrences s c2 = 1 \<and> Index s c1 < Index s c2)"

text \<open>
  Regrouping the output of \<open>buildEntityIds\<close> by shard: for each shard of the list, in
  the shard's map, the keyspace ids bound to the entity column's names in the order
  of their indices, up to the first name that holds none. The search has no bound of
  its own, so it is a partial function.
\<close>

partial_function (option) entityIds_of ::
  "string \<Rightarrow> 'b BindVars \<Rightarrow> nat \<Rightarrow> KeyspaceId list option" where
  "entityIds_of entityColName bindVar i =
     (case bindVar (entityColName @ itoa i) of
        Some (KeyspaceIdV kid) \<Rightarrow>
          Option.bind (entityIds_of entityColName bindVar (Suc i)) (\<lambda>kids. Some (kid # kids))
      | Some (OtherV v) \<Rightarrow> Some []
      | None \<Rightarrow> Some [])"

definition regroup ::
  "string \<Rightarrow> string list \<times> (string \<rightharpoonup> string) \<times> (string \<rightharpoonup> 'b BindVars) \<Rightarrow>
   (string \<times> KeyspaceId list option) list" where
  "regroup entityColName out =
     (case out of
        (shards, sqls, bindVars) \<Rightarrow>
          map (\<lambda>shard. (shard, case bindVars shard of
                                  Some bindVar \<Rightarrow> entityIds_of entityColName bindVar 0
                                | None \<Rightarrow> None)) shards)"

text \<open>The IN-clause over the names of \<open>n\<close> entity bind variables.\<close>

definition entity_names :: "string \<Rightarrow> nat \<Rightarrow> string list" where
  "entity_names entityColName n = map (\<lambda>i. entityColName @ itoa i) [0..<n]"

fun join_names :: "string list \<Rightarrow> string" where
  "join_names [] = []"
| "join_names [name] = '':'' @ name"
| "join_names (name # names) = '':'' @ name @ '', '' @ join_names names"

definition in_clause :: "string \<Rightarrow> nat \<Rightarrow> string" where
  "in_clause entityColName n =
     entityColName @ '' in ('' @ join_names (entity_names entityColName n) @ '')''"

text \<open>
  In a record of calls, an alias lookup that failed is followed by a resolution of the
  keyspace the lookup was made for: the loop went on under the unchanged name.
\<close>

fun alias_errors_ignored :: "event list \<Rightarrow> bool" where
  "alias_errors_ignored [] = True"
| "alias_errors_ignored [Alias keyspace (Inl err)] = False"
| "alias_errors_ignored (Alias keyspace (Inl err) # Resolve keyspace' r # tr) =
     (keyspace' = keyspace \<and> alias_errors_ignored tr)"
| "alias_errors_ignored (Alias keyspace (Inl err) # ev # tr) = False"
| "alias_errors_ignored (ev # tr) = alias_errors_ignored tr"

text \<open>The error a call returned is one that a resolution or a dispatch returned.\<close>

fun error_of_resolve_or_dispatch :: "error + 'r \<Rightarrow> event list \<Rightarrow> bool" where
  "error_of_resolve_or_dispatch (Inl err) tr = (Some err \<in> set (map event_error tr))"
| "error_of_resolve_or_dispatch (Inr qr) tr = True"

subsection \<open>Notions for the proofs about the splice\<close>

text \<open>
  One search of \<open>insertSqlClause\<close>: the index found replaces \<open>idxExtra\<close> when it is
  above \<open>0\<close> and below it. The splice index is \<open>idxExtra\<close> after the four searches,
  and the prefix is what is written before the clause.
\<close>

definition narrow :: "int \<Rightarrow> int \<Rightarrow> int" where
  "narrow idx idxExtra = (if idx > 0 \<and> idx < idxExtra then idx else idxExtra)"

definition spliceIndex :: "string \<Rightarrow> int" where
  "spliceIndex sql =
     narrow (Index sql '' for update'')
       (narrow (Index sql '' limit'')
          (narrow (Index sql '' order by'')
             (narrow (Index sql '' group by'') (int (length sql)))))"

definition clausePrefix :: "string \<Rightarrow> string" where
  "clausePrefix sql = (if Contains sql ''where'' then '' and '' else '' where '')"

text \<open>
  The two prefixes. A keyword is overlap-free of a string when no proper suffix of the
  keyword, from its second character on, is a prefix of the string or has it as a
  prefix; it is apart from a prefix when it is not comparable with what the prefix
  holds from any of its positions but the last.
\<close>

definition clause_prefixes :: "string list" where
  "clause_prefixes = ['' and '', '' where '']"

definition overlap_free :: "string \<Rightarrow> string \<Rightarrow> bool" where
  "overlap_free k s =
     list_all (\<lambda>n. \<not> prefix (drop n k) s \<and> \<not> prefix s (drop n k)) [1..<length k]"

definition apart :: "string \<Rightarrow> string \<Rightarrow> bool" where
  "apart k p =
     list_all (\<lambda>m. \<not> prefix k (drop m p) \<and> \<not> prefix (drop m p) k) [0..<length p - 1]"

section \<open>Scenarios\<close>

text \<open>
  Collaborators for the scenario tests of the specification. The state of the world
  is the number of dispatches made so far. A tablet that answers RETRY to the first
  dispatch and then returns, as its rows, the keyspace and the shards it was asked:
\<close>

definition retry_error :: error where
  "retry_error = ShardConnError ERR_RETRY ''retry''"

definition tablet_retry_once ::
  "string \<Rightarrow> unit \<Rightarrow> string \<Rightarrow> string list \<Rightarrow> TabletType \<Rightarrow> unit \<Rightarrow> nat \<Rightarrow>
   (error + string \<times> string list) \<times> nat" where
  "tablet_retry_once sql bindVars keyspace shards tabletType session n =
     (if n = 0 then Inl retry_error else Inr (keyspace, shards), Suc n)"

definition batch_retry_once ::
  "unit \<Rightarrow> string \<Rightarrow> string list \<Rightarrow> TabletType \<Rightarrow> unit \<Rightarrow> nat \<Rightarrow>
   (error + string \<times> string list) \<times> nat" where
  "batch_retry_once queries keyspace shards tabletType session n =
     (if n = 0 then Inl retry_error else Inr (keyspace, shards), Suc n)"

definition entity_retry_once ::
  "string list \<Rightarrow> (string \<rightharpoonup> string) \<Rightarrow> (string \<rightharpoonup> unit BindVars) \<Rightarrow> string \<Rightarrow> TabletType \<Rightarrow>
   unit \<Rightarrow> nat \<Rightarrow> (error + string \<times> string list) \<times> nat" where
  "entity_retry_once shards sqls bindVars keyspace tabletType session n =
     (if n = 0 then Inl retry_error else Inr (keyspace, shards), Suc n)"

text \<open>
  Topologies: no alias; the keyspace \<open>user\<close> served from \<open>user_v2\<close>; a topology that
  cannot be reached.
\<close>

definition alias_none :: "string \<Rightarrow> TabletType \<Rightarrow> nat \<Rightarrow> (error + string) \<times> nat" where
  "alias_none keyspace tabletType n = (Inr keyspace, n)"

definition alias_user_v2 :: "string \<Rightarrow> TabletType \<Rightarrow> nat \<Rightarrow> (error + string) \<times> nat" where
  "alias_user_v2 keyspace tabletType n =
     (Inr (if keyspace = ''user'' then ''user_v2'' else keyspace), n)"

definition alias_unreachable :: "string \<Rightarrow> TabletType \<Rightarrow> nat \<Rightarrow> (error + string) \<times> nat" where
  "alias_unreachable keyspace tabletType n = (Inl (PlainError ''topology unreachable''), n)"

text \<open>
  Resolutions: always the shard \<open>0\<close>; always the two shards, in an order that is not
  the sorted one; the shard \<open>0\<close> split in two after the first dispatch, the new shards
  again in an order that is not the sorted one.
\<close>

definition shards_single :: "string \<Rightarrow> nat \<Rightarrow> (error + string list) \<times> nat" where
  "shards_single keyspace n = (Inr [''0''], n)"

definition shards_pair :: "string \<Rightarrow> nat \<Rightarrow> (error + string list) \<times> nat" where
  "shards_pair keyspace n = (Inr [''80-'', ''-80''], n)"

definition shards_split :: "string \<Rightarrow> nat \<Rightarrow> (error + string list) \<times> nat" where
  "shards_split keyspace n = (Inr (if n = 0 then [''0''] else [''80-'', ''-80'']), n)"

definition entity_shards_single ::
  "string \<Rightarrow> unit \<Rightarrow> TabletType \<Rightarrow> nat \<Rightarrow> (error + (string \<times> KeyspaceId list) list) \<times> nat" where
  "entity_shards_single keyspace entityKeyspaceIdMap tabletType n = (Inr [(''0'', [''k1''])], n)"

definition entity_query :: "(unit, unit, unit) EntityIdsQuery" where
  "entity_query =
     \<lparr>Sql = ''select * from t'', BindVariables = Map.empty, Keyspace = ''user'',
      EntityColumnName = ''id'', EntityKeyspaceIdMap = (), TabletType = ''master'',
      Session = ()\<rparr>"

text \<open>A stream that delivers everything.\<close>

definition stream_ok ::
  "string \<Rightarrow> unit \<Rightarrow> string \<Rightarrow> string list \<Rightarrow> TabletType \<Rightarrow> unit \<Rightarrow> unit \<Rightarrow> nat \<Rightarrow>
   error option \<times> nat" where
  "stream_ok sql bindVars keyspace shards tabletType session sendReply n = (None, Suc n)"

text \<open>Bind variables of a query, one of them named like the first entity variable.\<close>

definition clashing_bindVars :: "nat BindVars" where
  "clashing_bindVars = [''id0'' \<mapsto> OtherV 7]"

text \<open>A map of two shards and bind variables that clash with no entity variable.\<close>

definition plain_bindVars :: "nat BindVars" where
  "plain_bindVars = [''x'' \<mapsto> OtherV 1]"

definition two_shards :: "(string \<times> KeyspaceId list) list" where
  "two_shards = [(''-80'', [''k1'', ''k2'']), (''80-'', [''k3''])]"

section \<open>StrsEquals compares multisets\<close>

lemma StrsEquals_loop_eq:
  "length a = length b \<Longrightarrow> StrsEquals_loop a (pre @ b) (length pre) = (a = b)"
proof (induction a arbitrary: b pre)
  case Nil
  then show ?case by simp
next
  case (Cons v a)
  then obtain w b' where b: "b = w # b'" by (cases b) auto
  have "StrsEquals_loop a ((pre @ [w]) @ b') (length (pre @ [w])) = (a = b')"
    using Cons.prems b by (intro Cons.IH) simp
  then show ?case using b by (simp add: nth_append)
qed

lemma sort_eq_iff_mset: "(sort a = sort b) = (mset a = mset (b::string list))"
proof
  assume "sort a = sort b"
  then have "mset (sort a) = mset (sort b)" by simp
  then show "mset a = mset b" by simp
next
  assume "mset a = mset b"
  then show "sort a = sort b"
    by (metis properties_for_sort mset_sort sorted_sort)
qed

lemma fst_StrsEquals: "fst (StrsEquals a b) = (mset a = mset b)"
proof (cases "length a = length b")
  case True
  then have "StrsEquals_loop (sort a) ([] @ sort b) (length ([]::string list)) = (sort a = sort b)"
    by (intro StrsEquals_loop_eq) simp
  then show ?thesis using True by (simp add: StrsEquals_def Let_def sort_eq_iff_mset)
next
  case False
  then have "mset a \<noteq> mset b" by (metis size_mset)
  then show ?thesis using False by (simp add: StrsEquals_def)
qed

lemma StrsEquals_slices:
  "snd (StrsEquals a b) = (if length a = length b then (sort a, sort b) else (a, b))"
  by (simp add: StrsEquals_def Let_def)

subsection \<open>Sorting in place\<close>

lemma length_elems: "in_store mem s \<Longrightarrow> length (elems mem s) = len s"
  by (simp add: in_store_def elems_def)

lemma length_sort_Strings: "in_store mem s \<Longrightarrow> length (sort_Strings mem s) = length mem"
  by (simp add: sort_Strings_def length_elems) (simp add: in_store_def)

lemma in_store_sort_Strings:
  "in_store mem s \<Longrightarrow> in_store mem t \<Longrightarrow> in_store (sort_Strings mem s) t"
  by (simp add: in_store_def [of _ t] length_sort_Strings)

lemma elems_sort_Strings_same:
  "in_store mem s \<Longrightarrow> elems (sort_Strings mem s) s = sort (elems mem s)"
proof -
  assume s: "in_store mem s"
  have l: "length (take (ptr s) mem) = ptr s" using s by (simp add: in_store_def)
  have "drop (ptr s) (sort_Strings mem s) = sort (elems mem s) @ drop (ptr s + len s) mem"
    unfolding sort_Strings_def using l by simp
  then show ?thesis
    unfolding elems_def [of "sort_Strings mem s"] using length_elems [OF s] by simp
qed

lemma nth_sort_Strings_outside:
  assumes "in_store mem s" and "i < length mem" and "i < ptr s \<or> ptr s + len s \<le> i"
  shows "sort_Strings mem s ! i = mem ! i"
proof -
  have l: "length (take (ptr s) mem) = ptr s" using assms(1) by (simp add: in_store_def)
  have e: "length (sort (elems mem s)) = len s" using length_elems [OF assms(1)] by simp
  from assms(3) show ?thesis
  proof
    assume "i < ptr s"
    then show ?thesis unfolding sort_Strings_def using l by (simp add: nth_append)
  next
    assume a: "ptr s + len s \<le> i"
    then obtain k where k: "i = ptr s + len s + k" by (metis le_Suc_ex)
    have "length (take (ptr s) mem @ sort (elems mem s)) = ptr s + len s" using l e by simp
    then have "((take (ptr s) mem @ sort (elems mem s)) @ drop (ptr s + len s) mem) ! i =
               drop (ptr s + len s) mem ! k"
      unfolding k by (metis nth_append_length_plus)
    also have "\<dots> = mem ! i" using assms(2) unfolding k by simp
    finally show ?thesis unfolding sort_Strings_def by simp
  qed
qed

lemma elems_nth: "in_store mem s \<Longrightarrow> i < len s \<Longrightarrow> elems mem s ! i = mem ! (ptr s + i)"
  by (simp add: elems_def in_store_def)

lemma elems_sort_Strings_other:
  assumes "in_store mem s" and "in_store mem t" and "\<not> overlap s t"
  shows "elems (sort_Strings mem s) t = elems mem t"
proof (rule nth_equalityI)
  show "length (elems (sort_Strings mem s) t) = length (elems mem t)"
    using length_elems [OF assms(2)] length_elems [OF in_store_sort_Strings [OF assms(1,2)]]
    by simp
next
  fix i assume "i < length (elems (sort_Strings mem s) t)"
  then have i: "i < len t"
    using length_elems [OF in_store_sort_Strings [OF assms(1,2)]] by simp
  then have "ptr t + i < length mem" using assms(2) by (simp add: in_store_def)
  moreover from i assms(3) have "ptr t + i < ptr s \<or> ptr s + len s \<le> ptr t + i"
    unfolding overlap_def by auto
  ultimately have "sort_Strings mem s ! (ptr t + i) = mem ! (ptr t + i)"
    using nth_sort_Strings_outside [OF assms(1)] by blast
  then show "elems (sort_Strings mem s) t ! i = elems mem t ! i"
    using elems_nth [OF assms(2) i] elems_nth [OF in_store_sort_Strings [OF assms(1,2)] i]
    by simp
qed

lemma overlap_commute: "overlap a b = overlap b a"
  by (auto simp: overlap_def)

text \<open>On two slices that do not overlap the call is the comparison of their contents.\<close>

lemma StrsEquals_mem_separate:
  assumes "in_store mem a" and "in_store mem b" and "\<not> overlap a b"
  shows "fst (StrsEquals_mem mem a b) = fst (StrsEquals (elems mem a) (elems mem b))
     \<and> elems (snd (StrsEquals_mem mem a b)) a = fst (snd (StrsEquals (elems mem a) (elems mem b)))
     \<and> elems (snd (StrsEquals_mem mem a b)) b = snd (snd (StrsEquals (elems mem a) (elems mem b)))"
proof (cases "len a = len b")
  case False
  then show ?thesis
    using length_elems [OF assms(1)] length_elems [OF assms(2)]
    by (simp add: StrsEquals_mem_def StrsEquals_def)
next
  case True
  define mem1 where "mem1 = sort_Strings mem a"
  define mem2 where "mem2 = sort_Strings mem1 b"
  have b1: "in_store mem1 b" and a1: "in_store mem1 a"
    unfolding mem1_def using assms(1,2) by (simp_all add: in_store_sort_Strings)
  have ea: "elems mem2 a = sort (elems mem a)"
    unfolding mem2_def
    using elems_sort_Strings_other [OF b1 a1] assms(3) overlap_commute [of a b]
      elems_sort_Strings_same [OF assms(1)]
    by (simp add: mem1_def)
  have eb: "elems mem2 b = sort (elems mem b)"
    unfolding mem2_def
    using elems_sort_Strings_same [OF b1] elems_sort_Strings_other [OF assms(1,2,3)]
    by (simp add: mem1_def)
  have "StrsEquals_mem mem a b = (StrsEquals_loop (elems mem2 a) (elems mem2 b) 0, mem2)"
    using True by (simp add: StrsEquals_mem_def Let_def mem1_def mem2_def)
  then show ?thesis
    using True length_elems [OF assms(1)] length_elems [OF assms(2)]
    by (simp add: ea eb StrsEquals_def Let_def)
qed

text \<open>
  C6, as amended. For all string slices \<open>A\<close> and \<open>B\<close> that do not overlap in memory,
  \<open>StrsEquals(A, B)\<close> returns true if and only if \<open>A\<close> and \<open>B\<close> contain the same
  multiset of strings: the same elements with the same multiplicities, whatever their
  order.
\<close>

theorem StrsEquals_separate_iff_same_multiset:
  assumes "in_store mem a" and "in_store mem b" and "\<not> overlap a b"
  shows "fst (StrsEquals_mem mem a b) = (mset (elems mem a) = mset (elems mem b))"
  using StrsEquals_mem_separate [OF assms] fst_StrsEquals [of "elems mem a" "elems mem b"]
  by simp

theorem StrsEquals_separate_iff_same_multiset_witness:
  "in_store [''80-'', ''-80'', ''-80'', ''80-'', ''0''] \<lparr>ptr = 0, len = 2\<rparr>
   \<and> in_store [''80-'', ''-80'', ''-80'', ''80-'', ''0''] \<lparr>ptr = 2, len = 2\<rparr>
   \<and> in_store [''80-'', ''-80'', ''-80'', ''80-'', ''0''] \<lparr>ptr = 3, len = 2\<rparr>
   \<and> \<not> overlap \<lparr>ptr = 0, len = 2\<rparr> \<lparr>ptr = 2, len = 2\<rparr>
   \<and> \<not> overlap \<lparr>ptr = 0, len = 2\<rparr> \<lparr>ptr = 3, len = 2\<rparr>
   \<and> fst (StrsEquals_mem [''80-'', ''-80'', ''-80'', ''80-'', ''0'']
          \<lparr>ptr = 0, len = 2\<rparr> \<lparr>ptr = 2, len = 2\<rparr>)
   \<and> \<not> fst (StrsEquals_mem [''80-'', ''-80'', ''-80'', ''80-'', ''0'']
          \<lparr>ptr = 0, len = 2\<rparr> \<lparr>ptr = 3, len = 2\<rparr>)"
proof -
  let ?mem = "[''80-'', ''-80'', ''-80'', ''80-'', ''0'']"
  have a: "in_store ?mem \<lparr>ptr = 0, len = 2\<rparr>" by (simp add: in_store_def)
  have b: "in_store ?mem \<lparr>ptr = 2, len = 2\<rparr>" by (simp add: in_store_def)
  have c: "in_store ?mem \<lparr>ptr = 3, len = 2\<rparr>" by (simp add: in_store_def)
  have ab: "\<not> overlap \<lparr>ptr = 0, len = 2\<rparr> \<lparr>ptr = 2, len = 2\<rparr>" by (simp add: overlap_def)
  have ac: "\<not> overlap \<lparr>ptr = 0, len = 2\<rparr> \<lparr>ptr = 3, len = 2\<rparr>" by (simp add: overlap_def)
  have ea: "elems ?mem \<lparr>ptr = 0, len = 2\<rparr> = [''80-'', ''-80'']" by (simp add: elems_def)
  have eb: "elems ?mem \<lparr>ptr = 2, len = 2\<rparr> = [''-80'', ''80-'']" by (simp add: elems_def)
  have ec: "elems ?mem \<lparr>ptr = 3, len = 2\<rparr> = [''80-'', ''0'']" by (simp add: elems_def)
  from StrsEquals_separate_iff_same_multiset [OF a b ab]
  have 1: "fst (StrsEquals_mem ?mem \<lparr>ptr = 0, len = 2\<rparr> \<lparr>ptr = 2, len = 2\<rparr>)"
    unfolding ea eb by simp
  from StrsEquals_separate_iff_same_multiset [OF a c ac]
  have 2: "\<not> fst (StrsEquals_mem ?mem \<lparr>ptr = 0, len = 2\<rparr> \<lparr>ptr = 3, len = 2\<rparr>)"
    unfolding ea ec by simp
  from a b c ab ac 1 2 show ?thesis by blast
qed

text \<open>
  The claim as stated fails on two slices of one array that overlap: the second sort
  moves elements of the first slice. In the array \<open>a, b, a\<close> the slices of the first
  two and of the last two elements hold the same multiset, and the call returns false.
\<close>

theorem StrsEquals_overlapping_slices:
  "in_store [''a'', ''b'', ''a''] \<lparr>ptr = 0, len = 2\<rparr>
   \<and> in_store [''a'', ''b'', ''a''] \<lparr>ptr = 1, len = 2\<rparr>
   \<and> overlap \<lparr>ptr = 0, len = 2\<rparr> \<lparr>ptr = 1, len = 2\<rparr>
   \<and> mset (elems [''a'', ''b'', ''a''] \<lparr>ptr = 0, len = 2\<rparr>) =
       mset (elems [''a'', ''b'', ''a''] \<lparr>ptr = 1, len = 2\<rparr>)
   \<and> StrsEquals_mem [''a'', ''b'', ''a''] \<lparr>ptr = 0, len = 2\<rparr> \<lparr>ptr = 1, len = 2\<rparr> =
       (False, [''a'', ''a'', ''b''])"
proof -
  have "StrsEquals_mem [''a'', ''b'', ''a''] \<lparr>ptr = 0, len = 2\<rparr> \<lparr>ptr = 1, len = 2\<rparr> =
       (False, [''a'', ''a'', ''b''])" by code_simp
  then show ?thesis by (simp add: in_store_def elems_def overlap_def)
qed

section \<open>The retry loop of Execute\<close>

lemma StrsEquals_eq:
  "StrsEquals a b =
     (mset a = mset b,
      if length a = length b then sort a else a,
      if length a = length b then sort b else b)"
  using fst_StrsEquals [of a b] StrsEquals_slices [of a b]
  by (cases "StrsEquals a b") auto

lemma Execute_loop_success:
  assumes "scatterConn_Execute sql bindVars keyspace shards tabletType session w = (Inr qr, w1)"
  shows "Execute_loop scatterConn_Execute getKeyspaceAlias mapToShards sql bindVars tabletType
           session keyspace shards tr w =
         Some (Inr qr, tr @ [Dispatch keyspace shards None], w1)"
  using assms by (subst Execute_loop.simps) simp

lemma Execute_loop_reshard:
  assumes "scatterConn_Execute sql bindVars keyspace shards tabletType session w = (Inl err, w1)"
    and "is_ERR_RETRY err"
    and "getKeyspaceAlias keyspace tabletType w1 = (lookup, w2)"
    and "keyspace' = (case lookup of Inr newKeyspace \<Rightarrow> newKeyspace | Inl e \<Rightarrow> keyspace)"
    and "mapToShards keyspace' w2 = (Inr newShards, w3)"
    and "keyspace' \<noteq> keyspace \<or> mset newShards \<noteq> mset shards"
  shows "Execute_loop scatterConn_Execute getKeyspaceAlias mapToShards sql bindVars tabletType
           session keyspace shards tr w =
         Execute_loop scatterConn_Execute getKeyspaceAlias mapToShards sql bindVars tabletType
           session keyspace'
           (if length newShards = length shards then sort newShards else newShards)
           (tr @ [Dispatch keyspace shards (Some err), Alias keyspace lookup,
                  Resolve keyspace' None]) w3"
proof -
  have s: "mset newShards = mset shards \<Longrightarrow> sort shards = sort newShards"
    by (simp add: sort_eq_iff_mset)
  have l: "mset newShards = mset shards \<Longrightarrow> length newShards = length shards"
    by (metis size_mset)
  show ?thesis
    using assms s l
    by (subst Execute_loop.simps) (auto simp: Let_def StrsEquals_eq split: sum.splits)
qed

lemma Execute_loop_no_reshard:
  assumes "scatterConn_Execute sql bindVars keyspace shards tabletType session w = (Inl err, w1)"
    and "is_ERR_RETRY err"
    and "getKeyspaceAlias keyspace tabletType w1 = (lookup, w2)"
    and "lookup = Inr keyspace \<or> (\<exists>e. lookup = Inl e)"
    and "mapToShards keyspace w2 = (Inr newShards, w3)"
    and "mset newShards = mset shards"
  shows "Execute_loop scatterConn_Execute getKeyspaceAlias mapToShards sql bindVars tabletType
           session keyspace shards tr w =
         Some (Inl err, tr @ [Dispatch keyspace shards (Some err), Alias keyspace lookup,
                 Resolve keyspace None], w3)"
  using assms by (subst Execute_loop.simps) (auto simp: Let_def StrsEquals_eq split: sum.splits)

text \<open>
  C1. Whenever ScatterConn.Execute returns a ShardConnError with code RETRY in
  \<open>Resolver.Execute\<close>, at whatever iteration of the loop, and the alias that
  \<open>getKeyspaceAlias\<close> returns is the current keyspace and the list resolved again is
  the current shard list as a multiset, the loop makes no further dispatch and
  returns this RETRY error: the calls made are the dispatch, the alias lookup and
  the resolution, and nothing else.
\<close>

theorem Execute_retry_without_resharding:
  assumes "scatterConn_Execute sql bindVars keyspace shards tabletType session w = (Inl err, w1)"
    and "is_ERR_RETRY err"
    and "getKeyspaceAlias keyspace tabletType w1 = (Inr keyspace, w2)"
    and "mapToShards keyspace w2 = (Inr newShards, w3)"
    and "mset newShards = mset shards"
  shows "Execute_loop scatterConn_Execute getKeyspaceAlias mapToShards sql bindVars tabletType
           session keyspace shards tr w =
         Some (Inl err, tr @ [Dispatch keyspace shards (Some err), Alias keyspace (Inr keyspace),
                 Resolve keyspace None], w3)"
  using assms by (subst Execute_loop.simps) (simp add: Let_def StrsEquals_eq)

theorem Execute_retry_without_resharding_witness:
  "Execute tablet_retry_once alias_none ''select 1'' () ''user'' ''master'' () shards_single 0 =
     Some (Inl retry_error,
           [Resolve ''user'' None, Dispatch ''user'' [''0''] (Some retry_error),
            Alias ''user'' (Inr ''user''), Resolve ''user'' None], 1)"
  using Execute_retry_without_resharding
    [of tablet_retry_once "''select 1''" "()" "''user''" "[''0'']" "''master''" "()" 0
        retry_error 1 alias_none 1 shards_single "[''0'']" 1 "[Resolve ''user'' None]"]
  by (simp add: Execute_def tablet_retry_once_def alias_none_def shards_single_def
      retry_error_def)

text \<open>
  C2. When the first dispatch of \<open>Resolver.Execute\<close> returns a ShardConnError with
  code RETRY, and then \<open>getKeyspaceAlias\<close> returns another keyspace name or the list
  resolved again (under the name now current) differs as a multiset from the current
  one, the loop dispatches again under the updated name to the updated shards (the
  list resolved again, sorted when \<open>StrsEquals\<close> sorted it); if this second dispatch
  succeeds its result is returned, after exactly two dispatches.
\<close>

theorem Execute_retry_with_resharding:
  assumes "mapToShards keyspace w = (Inr shards, w0)"
    and "scatterConn_Execute sql bindVars keyspace shards tabletType session w0 = (Inl err, w1)"
    and "is_ERR_RETRY err"
    and "getKeyspaceAlias keyspace tabletType w1 = (lookup, w2)"
    and "keyspace' = (case lookup of Inr newKeyspace \<Rightarrow> newKeyspace | Inl e \<Rightarrow> keyspace)"
    and "mapToShards keyspace' w2 = (Inr newShards, w3)"
    and "keyspace' \<noteq> keyspace \<or> mset newShards \<noteq> mset shards"
    and "shards' = (if length newShards = length shards then sort newShards else newShards)"
    and "scatterConn_Execute sql bindVars keyspace' shards' tabletType session w3 = (Inr qr, w4)"
    and "tr = [Resolve keyspace None, Dispatch keyspace shards (Some err), Alias keyspace lookup,
               Resolve keyspace' None, Dispatch keyspace' shards' None]"
  shows "Execute scatterConn_Execute getKeyspaceAlias sql bindVars keyspace tabletType session
           mapToShards w = Some (Inr qr, tr, w4)
         \<and> mset shards' = mset newShards
         \<and> length (filter is_Dispatch tr) = 2"
proof -
  have "Execute scatterConn_Execute getKeyspaceAlias sql bindVars keyspace tabletType session
           mapToShards w =
        Execute_loop scatterConn_Execute getKeyspaceAlias mapToShards sql bindVars tabletType
           session keyspace shards [Resolve keyspace None] w0"
    using assms(1) by (simp add: Execute_def)
  also have "\<dots> = Execute_loop scatterConn_Execute getKeyspaceAlias mapToShards sql bindVars
           tabletType session keyspace' shards'
           ([Resolve keyspace None] @ [Dispatch keyspace shards (Some err), Alias keyspace lookup,
                  Resolve keyspace' None]) w3"
    unfolding assms(8) using assms(2-7) by (rule Execute_loop_reshard)
  also have "\<dots> = Some (Inr qr, tr, w4)"
    using assms(9) by (simp add: Execute_loop_success assms(10))
  finally show ?thesis
    by (simp add: assms(8,10))
qed

theorem Execute_retry_with_resharding_witness:
  "Execute tablet_retry_once alias_none ''select 1'' () ''user'' ''master'' () shards_split 0 =
     Some (Inr (''user'', [''80-'', ''-80'']),
           [Resolve ''user'' None, Dispatch ''user'' [''0''] (Some retry_error),
            Alias ''user'' (Inr ''user''), Resolve ''user'' None,
            Dispatch ''user'' [''80-'', ''-80''] None], 2)
   \<and> Execute tablet_retry_once alias_user_v2 ''select 1'' () ''user'' ''master'' () shards_single 0 =
     Some (Inr (''user_v2'', [''0'']),
           [Resolve ''user'' None, Dispatch ''user'' [''0''] (Some retry_error),
            Alias ''user'' (Inr ''user_v2''), Resolve ''user_v2'' None,
            Dispatch ''user_v2'' [''0''] None], 2)"
  using Execute_retry_with_resharding
    [of shards_split "''user''" 0 "[''0'']" 0 tablet_retry_once "''select 1''" "()" "''master''"
        "()" retry_error 1 alias_none "Inr ''user''" 1 "''user''" "[''80-'', ''-80'']" 1
        "[''80-'', ''-80'']" "(''user'', [''80-'', ''-80''])" 2]
    Execute_retry_with_resharding
    [of shards_single "''user''" 0 "[''0'']" 0 tablet_retry_once "''select 1''" "()" "''master''"
        "()" retry_error 1 alias_user_v2 "Inr ''user_v2''" 1 "''user_v2''" "[''0'']" 1
        "[''0'']" "(''user_v2'', [''0''])" 2]
  by (simp add: tablet_retry_once_def alias_none_def alias_user_v2_def shards_split_def
      shards_single_def retry_error_def)


text \<open>
  C8, as amended. \<open>StrsEquals\<close> sorts its two slices in place when they have the same
  length: if they do not overlap in memory, each is afterwards the sorted permutation
  of what it was. When the lengths differ it returns false before sorting and the
  store is as it was. So, after the comparison in the retry loop of
  \<open>Resolver.Execute\<close>, the shard list of the next dispatch is the list resolved again
  in sorted order when this list and the current one have the same length, and in the
  order the resolver returned it when they have not.
\<close>

theorem StrsEquals_sorts_equal_length_slices:
  "(in_store mem a \<and> in_store mem b \<and> \<not> overlap a b \<and> len a = len b \<longrightarrow>
      elems (snd (StrsEquals_mem mem a b)) a = sort (elems mem a)
      \<and> elems (snd (StrsEquals_mem mem a b)) b = sort (elems mem b)
      \<and> sorted (elems (snd (StrsEquals_mem mem a b)) a)
      \<and> sorted (elems (snd (StrsEquals_mem mem a b)) b)
      \<and> mset (elems (snd (StrsEquals_mem mem a b)) a) = mset (elems mem a)
      \<and> mset (elems (snd (StrsEquals_mem mem a b)) b) = mset (elems mem b))
   \<and> (len a \<noteq> len b \<longrightarrow> StrsEquals_mem mem a b = (False, mem))
   \<and> (scatterConn_Execute sql bindVars keyspace shards tabletType session w = (Inl err, w1)
        \<and> is_ERR_RETRY err
        \<and> getKeyspaceAlias keyspace tabletType w1 = (lookup, w2)
        \<and> keyspace' = (case lookup of Inr newKeyspace \<Rightarrow> newKeyspace | Inl e \<Rightarrow> keyspace)
        \<and> mapToShards keyspace' w2 = (Inr newShards, w3)
        \<and> (keyspace' \<noteq> keyspace \<or> mset newShards \<noteq> mset shards)
      \<longrightarrow>
        Execute_loop scatterConn_Execute getKeyspaceAlias mapToShards sql bindVars tabletType
          session keyspace shards tr w =
        Execute_loop scatterConn_Execute getKeyspaceAlias mapToShards sql bindVars tabletType
          session keyspace'
          (if length newShards = length shards then sort newShards else newShards)
          (tr @ [Dispatch keyspace shards (Some err), Alias keyspace lookup,
                 Resolve keyspace' None]) w3)"
proof (intro conjI impI)
  assume h: "in_store mem a \<and> in_store mem b \<and> \<not> overlap a b \<and> len a = len b"
  then have l: "length (elems mem a) = length (elems mem b)"
    using length_elems [of mem a] length_elems [of mem b] by simp
  from h have s: "elems (snd (StrsEquals_mem mem a b)) a =
        fst (snd (StrsEquals (elems mem a) (elems mem b)))"
      "elems (snd (StrsEquals_mem mem a b)) b =
        snd (snd (StrsEquals (elems mem a) (elems mem b)))"
    using StrsEquals_mem_separate [of mem a b] by simp_all
  show a': "elems (snd (StrsEquals_mem mem a b)) a = sort (elems mem a)"
    and b': "elems (snd (StrsEquals_mem mem a b)) b = sort (elems mem b)"
    unfolding s using l by (simp_all add: StrsEquals_slices)
  show "sorted (elems (snd (StrsEquals_mem mem a b)) a)"
    "sorted (elems (snd (StrsEquals_mem mem a b)) b)"
    "mset (elems (snd (StrsEquals_mem mem a b)) a) = mset (elems mem a)"
    "mset (elems (snd (StrsEquals_mem mem a b)) b) = mset (elems mem b)"
    unfolding a' b' by simp_all
next
  assume "len a \<noteq> len b"
  then show "StrsEquals_mem mem a b = (False, mem)" by (simp add: StrsEquals_mem_def)
next
  assume h: "scatterConn_Execute sql bindVars keyspace shards tabletType session w = (Inl err, w1)
        \<and> is_ERR_RETRY err
        \<and> getKeyspaceAlias keyspace tabletType w1 = (lookup, w2)
        \<and> keyspace' = (case lookup of Inr newKeyspace \<Rightarrow> newKeyspace | Inl e \<Rightarrow> keyspace)
        \<and> mapToShards keyspace' w2 = (Inr newShards, w3)
        \<and> (keyspace' \<noteq> keyspace \<or> mset newShards \<noteq> mset shards)"
  show "Execute_loop scatterConn_Execute getKeyspaceAlias mapToShards sql bindVars tabletType
          session keyspace shards tr w =
        Execute_loop scatterConn_Execute getKeyspaceAlias mapToShards sql bindVars tabletType
          session keyspace'
          (if length newShards = length shards then sort newShards else newShards)
          (tr @ [Dispatch keyspace shards (Some err), Alias keyspace lookup,
                 Resolve keyspace' None]) w3"
    using h Execute_loop_reshard
      [of scatterConn_Execute sql bindVars keyspace shards tabletType session w err w1
        getKeyspaceAlias lookup w2 keyspace' mapToShards newShards w3 tr]
    by blast
qed

theorem StrsEquals_sorts_equal_length_slices_witness:
  "in_store [''80-'', ''-80'', ''b'', ''a''] \<lparr>ptr = 0, len = 2\<rparr>
   \<and> in_store [''80-'', ''-80'', ''b'', ''a''] \<lparr>ptr = 2, len = 2\<rparr>
   \<and> \<not> overlap \<lparr>ptr = 0, len = 2\<rparr> \<lparr>ptr = 2, len = 2\<rparr>
   \<and> elems (snd (StrsEquals_mem [''80-'', ''-80'', ''b'', ''a'']
          \<lparr>ptr = 0, len = 2\<rparr> \<lparr>ptr = 2, len = 2\<rparr>)) \<lparr>ptr = 0, len = 2\<rparr> =
       [''-80'', ''80-'']
   \<and> elems (snd (StrsEquals_mem [''80-'', ''-80'', ''b'', ''a'']
          \<lparr>ptr = 0, len = 2\<rparr> \<lparr>ptr = 2, len = 2\<rparr>)) \<lparr>ptr = 2, len = 2\<rparr> =
       [''a'', ''b'']
   \<and> StrsEquals_mem [''80-'', ''-80'', ''b'', ''a''] \<lparr>ptr = 0, len = 2\<rparr> \<lparr>ptr = 2, len = 1\<rparr> =
       (False, [''80-'', ''-80'', ''b'', ''a''])
   \<and> Execute_loop tablet_retry_once alias_user_v2 shards_pair ''select 1'' () ''master'' ()
        ''user'' [''80-'', ''-80''] [] 0 =
      Execute_loop tablet_retry_once alias_user_v2 shards_pair ''select 1'' () ''master'' ()
        ''user_v2'' [''-80'', ''80-'']
        [Dispatch ''user'' [''80-'', ''-80''] (Some retry_error), Alias ''user'' (Inr ''user_v2''),
         Resolve ''user_v2'' None] 1"
proof -
  let ?mem = "[''80-'', ''-80'', ''b'', ''a'']"
  have a: "in_store ?mem \<lparr>ptr = 0, len = 2\<rparr>" by (simp add: in_store_def)
  have b: "in_store ?mem \<lparr>ptr = 2, len = 2\<rparr>" by (simp add: in_store_def)
  have ab: "\<not> overlap \<lparr>ptr = 0, len = 2\<rparr> \<lparr>ptr = 2, len = 2\<rparr>" by (simp add: overlap_def)
  have ea: "sort (elems ?mem \<lparr>ptr = 0, len = 2\<rparr>) = [''-80'', ''80-'']" by (simp add: elems_def)
  have eb: "sort (elems ?mem \<lparr>ptr = 2, len = 2\<rparr>) = [''a'', ''b'']" by (simp add: elems_def)
  note t1 = StrsEquals_sorts_equal_length_slices
    [of ?mem "\<lparr>ptr = 0, len = 2\<rparr>" "\<lparr>ptr = 2, len = 2\<rparr>" tablet_retry_once "''select 1''" "()"
      "''user''" "[''80-'', ''-80'']" "''master''" "()" 0 retry_error 1 alias_user_v2
      "Inr ''user_v2''" 1 "''user_v2''" shards_pair "[''80-'', ''-80'']" 1 "[]"]
  note t2 = StrsEquals_sorts_equal_length_slices
    [of ?mem "\<lparr>ptr = 0, len = 2\<rparr>" "\<lparr>ptr = 2, len = 1\<rparr>" tablet_retry_once "''select 1''" "()"
      "''user''" "[''80-'', ''-80'']" "''master''" "()" 0 retry_error 1 alias_user_v2
      "Inr ''user_v2''" 1 "''user_v2''" shards_pair "[''80-'', ''-80'']" 1 "[]"]
  from t1 a b ab have 1: "elems (snd (StrsEquals_mem ?mem \<lparr>ptr = 0, len = 2\<rparr>
      \<lparr>ptr = 2, len = 2\<rparr>)) \<lparr>ptr = 0, len = 2\<rparr> = [''-80'', ''80-'']"
    and 2: "elems (snd (StrsEquals_mem ?mem \<lparr>ptr = 0, len = 2\<rparr>
      \<lparr>ptr = 2, len = 2\<rparr>)) \<lparr>ptr = 2, len = 2\<rparr> = [''a'', ''b'']"
    unfolding ea [symmetric] eb [symmetric] by simp_all
  from t2 have 3: "StrsEquals_mem ?mem \<lparr>ptr = 0, len = 2\<rparr> \<lparr>ptr = 2, len = 1\<rparr> = (False, ?mem)"
    by simp
  from t1 have 4: "Execute_loop tablet_retry_once alias_user_v2 shards_pair ''select 1'' ()
        ''master'' () ''user'' [''80-'', ''-80''] [] 0 =
      Execute_loop tablet_retry_once alias_user_v2 shards_pair ''select 1'' () ''master'' ()
        ''user_v2'' [''-80'', ''80-'']
        [Dispatch ''user'' [''80-'', ''-80''] (Some retry_error), Alias ''user'' (Inr ''user_v2''),
         Resolve ''user_v2'' None] 1"
    by (simp add: tablet_retry_once_def alias_user_v2_def shards_pair_def retry_error_def)
  from a b ab 1 2 3 4 show ?thesis by blast
qed

lemma StrsEquals_mem_overlap_unsorted:
  "StrsEquals_mem [''b'', ''c'', ''a''] \<lparr>ptr = 0, len = 2\<rparr> \<lparr>ptr = 1, len = 2\<rparr> =
     (False, [''b'', ''a'', ''c''])"
  by code_simp


text \<open>
  The claim as stated fails when a shard is split: the lengths differ, and the second
  dispatch goes to the new shards in the order the resolver returned them. It also
  fails on two slices of equal length that overlap: in the array \<open>b, c, a\<close>, after the
  call on the first two and the last two elements, the first slice holds \<open>b, a\<close>.
\<close>

theorem shards_unsorted_after_StrsEquals:
  "Execute tablet_retry_once alias_none ''select 1'' () ''user'' ''master'' () shards_split 0 =
     Some (Inr (''user'', [''80-'', ''-80'']),
           [Resolve ''user'' None, Dispatch ''user'' [''0''] (Some retry_error),
            Alias ''user'' (Inr ''user''), Resolve ''user'' None,
            Dispatch ''user'' [''80-'', ''-80''] None], 2)
   \<and> \<not> sorted [''80-'', ''-80'']
   \<and> in_store [''b'', ''c'', ''a''] \<lparr>ptr = 0, len = 2\<rparr>
   \<and> in_store [''b'', ''c'', ''a''] \<lparr>ptr = 1, len = 2\<rparr>
   \<and> overlap \<lparr>ptr = 0, len = 2\<rparr> \<lparr>ptr = 1, len = 2\<rparr>
   \<and> StrsEquals_mem [''b'', ''c'', ''a''] \<lparr>ptr = 0, len = 2\<rparr> \<lparr>ptr = 1, len = 2\<rparr> =
       (False, [''b'', ''a'', ''c''])
   \<and> elems [''b'', ''a'', ''c''] \<lparr>ptr = 0, len = 2\<rparr> = [''b'', ''a'']
   \<and> \<not> sorted [''b'', ''a'']"
proof -
  have "Execute tablet_retry_once alias_none ''select 1'' () ''user'' ''master'' () shards_split 0 =
        Execute_loop tablet_retry_once alias_none shards_split ''select 1'' () ''master'' ()
          ''user'' [''0''] [Resolve ''user'' None] 0"
    by (simp add: Execute_def shards_split_def)
  also have "\<dots> = Execute_loop tablet_retry_once alias_none shards_split ''select 1'' ()
          ''master'' () ''user'' [''80-'', ''-80'']
          [Resolve ''user'' None, Dispatch ''user'' [''0''] (Some retry_error),
            Alias ''user'' (Inr ''user''), Resolve ''user'' None] 1"
    using Execute_loop_reshard
      [of tablet_retry_once "''select 1''" "()" "''user''" "[''0'']" "''master''" "()" 0
        retry_error 1 alias_none "Inr ''user''" 1 "''user''" shards_split "[''80-'', ''-80'']" 1
        "[Resolve ''user'' None]"]
    by (simp add: tablet_retry_once_def alias_none_def shards_split_def retry_error_def)
  also have "\<dots> = Some (Inr (''user'', [''80-'', ''-80'']),
           [Resolve ''user'' None, Dispatch ''user'' [''0''] (Some retry_error),
            Alias ''user'' (Inr ''user''), Resolve ''user'' None,
            Dispatch ''user'' [''80-'', ''-80''] None], 2)"
    by (subst Execute_loop_success [where qr = "(''user'', [''80-'', ''-80''])" and ?w1.0 = 2])
      (simp_all add: tablet_retry_once_def)
  finally show ?thesis
    using StrsEquals_mem_overlap_unsorted by (simp add: elems_def overlap_def in_store_def)
qed

text \<open>
  C3, as amended. When the resolution of \<open>Resolver.StreamExecute\<close> succeeds with
  more than one shard, the call returns the error \<open>Resolved to more than one shard\<close>
  (with a capital R) and ScatterConn.StreamExecute is never called; with exactly one
  shard, ScatterConn.StreamExecute is called once and what it returns is returned:
  one resolution, one call, no retry.
\<close>

theorem StreamExecute_single_shard_only:
  assumes "mapToShards keyspace w = (Inr shards, w1)"
    and "scatterConn_StreamExecute sql bindVars keyspace shards tabletType session sendReply w1
         = (err, w2)"
  shows "(length shards > 1 \<longrightarrow>
            StreamExecute scatterConn_StreamExecute sql bindVars keyspace tabletType session
              mapToShards sendReply w =
            (Some (PlainError ''Resolved to more than one shard''), [Resolve keyspace None], w1))
         \<and> (length shards = 1 \<longrightarrow>
            StreamExecute scatterConn_StreamExecute sql bindVars keyspace tabletType session
              mapToShards sendReply w =
            (err, [Resolve keyspace None, Dispatch keyspace shards err], w2))"
  using assms by (simp add: StreamExecute_def)

theorem StreamExecute_single_shard_only_witness:
  "StreamExecute stream_ok ''select 1'' () ''user'' ''master'' () shards_pair () 0 =
     (Some (PlainError ''Resolved to more than one shard''), [Resolve ''user'' None], 0)
   \<and> StreamExecute stream_ok ''select 1'' () ''user'' ''master'' () shards_single () 0 =
     (None, [Resolve ''user'' None, Dispatch ''user'' [''0''] None], 1)"
  using StreamExecute_single_shard_only
      [of shards_pair "''user''" 0 "[''80-'', ''-80'']" 0 stream_ok "''select 1''" "()"
        "''master''" "()" "()" None 1]
    StreamExecute_single_shard_only
      [of shards_single "''user''" 0 "[''0'']" 0 stream_ok "''select 1''" "()"
        "''master''" "()" "()" None 1]
  by (simp add: shards_pair_def shards_single_def stream_ok_def)

text \<open>The error is not the one with the message in lower case.\<close>

theorem StreamExecute_message_capitalised:
  "StreamExecute stream_ok ''select 1'' () ''user'' ''master'' () shards_pair () 0 =
     (Some (PlainError ''Resolved to more than one shard''), [Resolve ''user'' None], 0)
   \<and> fst (StreamExecute stream_ok ''select 1'' () ''user'' ''master'' () shards_pair () 0) \<noteq>
     Some (PlainError ''resolved to more than one shard'')"
  by (simp add: StreamExecute_def shards_pair_def)

section \<open>Errors of the alias lookup\<close>

lemma alias_errors_ignored_append:
  "alias_errors_ignored xs \<Longrightarrow> alias_errors_ignored ys \<Longrightarrow> alias_errors_ignored (xs @ ys)"
  by (induction xs rule: alias_errors_ignored.induct) auto

lemma error_of_resolve_or_dispatch_Cons:
  "error_of_resolve_or_dispatch res tr \<Longrightarrow> error_of_resolve_or_dispatch res (ev # tr)"
  by (cases res) auto

lemma Execute_loop_record:
  assumes "Execute_loop scatterConn_Execute getKeyspaceAlias mapToShards sql bindVars tabletType
             session keyspace shards tr w = Some y"
  shows "\<exists>suffix. fst (snd y) = tr @ suffix \<and> alias_errors_ignored suffix \<and>
           error_of_resolve_or_dispatch (fst y) suffix"
  apply (rule Execute_loop.raw_induct
      [where P = "\<lambda>scatterConn_Execute getKeyspaceAlias mapToShards sql bindVars tabletType
             session keyspace shards tr w y.
           \<exists>suffix. fst (snd y) = tr @ suffix \<and> alias_errors_ignored suffix \<and>
             error_of_resolve_or_dispatch (fst y) suffix", OF _ assms])
  subgoal premises prems for L scatterConn_Execute getKeyspaceAlias mapToShards sql bindVars
      tabletType session keyspace shards tr w y
    using prems(2)
    by (auto simp: Let_def error_of_resolve_or_dispatch_Cons
        split: prod.splits sum.splits if_splits dest!: prems(1))
  done

lemma ExecuteBatch_loop_record:
  assumes "ExecuteBatch_loop scatterConn_ExecuteBatch getKeyspaceAlias mapToShards queries
             tabletType session keyspace shards tr w = Some y"
  shows "\<exists>suffix. fst (snd y) = tr @ suffix \<and> alias_errors_ignored suffix \<and>
           error_of_resolve_or_dispatch (fst y) suffix"
  apply (rule ExecuteBatch_loop.raw_induct
      [where P = "\<lambda>scatterConn_ExecuteBatch getKeyspaceAlias mapToShards queries tabletType
             session keyspace shards tr w y.
           \<exists>suffix. fst (snd y) = tr @ suffix \<and> alias_errors_ignored suffix \<and>
             error_of_resolve_or_dispatch (fst y) suffix", OF _ assms])
  subgoal premises prems for L scatterConn_ExecuteBatch getKeyspaceAlias mapToShards queries
      tabletType session keyspace shards tr w y
    using prems(2)
    by (auto simp: Let_def error_of_resolve_or_dispatch_Cons
        split: prod.splits sum.splits if_splits dest!: prems(1))
  done

lemma ExecuteEntityIds_loop_record:
  assumes "ExecuteEntityIds_loop scatterConn_ExecuteEntityIds getKeyspaceAlias
             mapEntityIdsToShards query shards sqls bindVars tr w = Some y"
  shows "\<exists>suffix. fst (snd (snd y)) = tr @ suffix \<and> alias_errors_ignored suffix \<and>
           error_of_resolve_or_dispatch (fst y) suffix"
  apply (rule ExecuteEntityIds_loop.raw_induct
      [where P = "\<lambda>scatterConn_ExecuteEntityIds getKeyspaceAlias mapEntityIdsToShards query
             shards sqls bindVars tr w y.
           \<exists>suffix. fst (snd (snd y)) = tr @ suffix \<and> alias_errors_ignored suffix \<and>
             error_of_resolve_or_dispatch (fst y) suffix", OF _ assms])
  subgoal premises prems for L scatterConn_ExecuteEntityIds getKeyspaceAlias mapEntityIdsToShards
      query shards sqls bindVars tr w y
    using prems(2)
    by (auto simp: Let_def error_of_resolve_or_dispatch_Cons
        split: prod.splits sum.splits if_splits dest!: prems(1))
  done


lemma fst_buildEntityIds_shards:
  "fst (buildEntityIds_shards shardMap qSql entityColName qBindVars (shards, sqls, bindVars)) =
   shards @ map fst shardMap"
  by (induction shardMap arbitrary: shards sqls bindVars)
    (auto simp: Let_def split: prod.splits)

lemma fst_buildEntityIds:
  "fst (buildEntityIds shardMap qSql entityColName qBindVars) = map fst shardMap"
  by (simp add: buildEntityIds_def fst_buildEntityIds_shards)

text \<open>
  C9. In \<open>Resolver.Execute\<close>, \<open>ExecuteBatch\<close> and \<open>ExecuteEntityIds\<close> an error of
  \<open>getKeyspaceAlias\<close> after a RETRY never reaches the caller. In the record of
  calls of any run that returns, a failed alias lookup is followed at once by a
  resolution under the unchanged keyspace name, and an error that is returned is the
  error of a resolution or of a dispatch of that run.
\<close>

theorem alias_lookup_error_not_returned:
  "(Execute scatterConn_Execute getKeyspaceAlias sql bindVars keyspace tabletType session
      mapToShards w = Some (res, tr, w')
    \<longrightarrow> alias_errors_ignored tr \<and> error_of_resolve_or_dispatch res tr)
   \<and> (ExecuteBatch scatterConn_ExecuteBatch getKeyspaceAlias queries keyspace tabletType session
      mapToShards w = Some (resb, trb, wb')
    \<longrightarrow> alias_errors_ignored trb \<and> error_of_resolve_or_dispatch resb trb)
   \<and> (ExecuteEntityIds scatterConn_ExecuteEntityIds getKeyspaceAlias mapEntityIdsToShards
      query w = Some (rese, query', tre, we')
    \<longrightarrow> alias_errors_ignored tre \<and> error_of_resolve_or_dispatch rese tre)"
proof (intro conjI impI)
  assume run: "Execute scatterConn_Execute getKeyspaceAlias sql bindVars keyspace tabletType
      session mapToShards w = Some (res, tr, w')"
  show "alias_errors_ignored tr" "error_of_resolve_or_dispatch res tr"
    using run
    by (auto simp: Execute_def error_of_resolve_or_dispatch_Cons
        split: prod.splits sum.splits dest!: Execute_loop_record)
next
  assume run: "ExecuteBatch scatterConn_ExecuteBatch getKeyspaceAlias queries keyspace tabletType
      session mapToShards w = Some (resb, trb, wb')"
  show "alias_errors_ignored trb" "error_of_resolve_or_dispatch resb trb"
    using run
    by (auto simp: ExecuteBatch_def error_of_resolve_or_dispatch_Cons
        split: prod.splits sum.splits dest!: ExecuteBatch_loop_record)
next
  assume run: "ExecuteEntityIds scatterConn_ExecuteEntityIds getKeyspaceAlias
      mapEntityIdsToShards query w = Some (rese, query', tre, we')"
  show "alias_errors_ignored tre" "error_of_resolve_or_dispatch rese tre"
    using run
    by (auto simp: ExecuteEntityIds_def error_of_resolve_or_dispatch_Cons
        split: prod.splits sum.splits dest!: ExecuteEntityIds_loop_record)
qed

text \<open>
  The three operations against a tablet that answers RETRY and a topology whose alias
  lookup fails: the RETRY error comes back, not the error of the lookup.
\<close>

lemma run_Execute_alias_unreachable:
  "Execute tablet_retry_once alias_unreachable ''select 1'' () ''user'' ''master'' ()
      shards_single 0 =
   Some (Inl retry_error,
         [Resolve ''user'' None, Dispatch ''user'' [''0''] (Some retry_error),
          Alias ''user'' (Inl (PlainError ''topology unreachable'')), Resolve ''user'' None], 1)"
  unfolding Execute_def
  by (subst Execute_loop.simps)
    (simp add: Let_def StrsEquals_eq tablet_retry_once_def alias_unreachable_def
      shards_single_def retry_error_def)

lemma run_ExecuteBatch_alias_unreachable:
  "ExecuteBatch batch_retry_once alias_unreachable () ''user'' ''master'' () shards_single 0 =
   Some (Inl retry_error,
         [Resolve ''user'' None, Dispatch ''user'' [''0''] (Some retry_error),
          Alias ''user'' (Inl (PlainError ''topology unreachable'')), Resolve ''user'' None], 1)"
  unfolding ExecuteBatch_def
  by (subst ExecuteBatch_loop.simps)
    (simp add: Let_def StrsEquals_eq batch_retry_once_def alias_unreachable_def
      shards_single_def retry_error_def)

lemma run_ExecuteEntityIds_alias_unreachable:
  "ExecuteEntityIds entity_retry_once alias_unreachable entity_shards_single entity_query 0 =
   Some (Inl retry_error, entity_query,
         [Resolve ''user'' None, Dispatch ''user'' [''0''] (Some retry_error),
          Alias ''user'' (Inl (PlainError ''topology unreachable'')), Resolve ''user'' None], 1)"
proof -
  obtain shards sqls bindVars where b: "buildEntityIds [(''0'', [''k1''])] ''select * from t''
      ''id'' (Map.empty :: unit BindVars) = (shards, sqls, bindVars)"
    by (cases "buildEntityIds [(''0'', [''k1''])] ''select * from t''
      ''id'' (Map.empty :: unit BindVars)")
  have sh: "shards = [''0'']"
    using fst_buildEntityIds [of "[(''0'', [''k1''])]" "''select * from t''" "''id''"
        "Map.empty :: unit BindVars"] b by simp
  show ?thesis
    unfolding ExecuteEntityIds_def
    by (subst ExecuteEntityIds_loop.simps)
      (simp add: Let_def StrsEquals_eq entity_retry_once_def alias_unreachable_def
        entity_shards_single_def retry_error_def entity_query_def b sh)
qed

theorem alias_lookup_error_not_returned_witness:
  "alias_errors_ignored
     [Resolve ''user'' None, Dispatch ''user'' [''0''] (Some retry_error),
      Alias ''user'' (Inl (PlainError ''topology unreachable'')), Resolve ''user'' None]
   \<and> error_of_resolve_or_dispatch (Inl retry_error :: error + string \<times> string list)
     [Resolve ''user'' None, Dispatch ''user'' [''0''] (Some retry_error),
      Alias ''user'' (Inl (PlainError ''topology unreachable'')), Resolve ''user'' None]
   \<and> Execute tablet_retry_once alias_unreachable ''select 1'' () ''user'' ''master'' ()
      shards_single 0 =
     Some (Inl retry_error,
         [Resolve ''user'' None, Dispatch ''user'' [''0''] (Some retry_error),
          Alias ''user'' (Inl (PlainError ''topology unreachable'')), Resolve ''user'' None], 1)
   \<and> ExecuteBatch batch_retry_once alias_unreachable () ''user'' ''master'' () shards_single 0 =
     Some (Inl retry_error,
         [Resolve ''user'' None, Dispatch ''user'' [''0''] (Some retry_error),
          Alias ''user'' (Inl (PlainError ''topology unreachable'')), Resolve ''user'' None], 1)
   \<and> ExecuteEntityIds entity_retry_once alias_unreachable entity_shards_single entity_query 0 =
     Some (Inl retry_error, entity_query,
         [Resolve ''user'' None, Dispatch ''user'' [''0''] (Some retry_error),
          Alias ''user'' (Inl (PlainError ''topology unreachable'')), Resolve ''user'' None], 1)"
  using alias_lookup_error_not_returned
    [of tablet_retry_once alias_unreachable "''select 1''" "()" "''user''" "''master''" "()"
      shards_single 0 "Inl retry_error"
      "[Resolve ''user'' None, Dispatch ''user'' [''0''] (Some retry_error),
        Alias ''user'' (Inl (PlainError ''topology unreachable'')), Resolve ''user'' None]" 1
      batch_retry_once "()" "Inl retry_error"
      "[Resolve ''user'' None, Dispatch ''user'' [''0''] (Some retry_error),
        Alias ''user'' (Inl (PlainError ''topology unreachable'')), Resolve ''user'' None]" 1
      entity_retry_once entity_shards_single entity_query "Inl retry_error" entity_query
      "[Resolve ''user'' None, Dispatch ''user'' [''0''] (Some retry_error),
        Alias ''user'' (Inl (PlainError ''topology unreachable'')), Resolve ''user'' None]" 1]
    run_Execute_alias_unreachable run_ExecuteBatch_alias_unreachable
    run_ExecuteEntityIds_alias_unreachable
  by simp

section \<open>insertSqlClause\<close>

subsection \<open>strings.Index\<close>

lemma Index_from_shift:
  "Index_from s substr i = (if Index_from s substr 0 < 0 then - 1 else Index_from s substr 0 + i)
   \<and> - 1 \<le> Index_from s substr 0 \<and> Index_from s substr 0 \<le> int (length s)" if "0 \<le> i"
  using that
proof (induction s arbitrary: i)
  case Nil
  then show ?case by simp
next
  case (Cons c s)
  from Cons.IH [of "i + 1"] Cons.IH [of 1] Cons.prems
  show ?case by (auto split: if_splits)
qed

lemma Index_range: "- 1 \<le> Index s substr \<and> Index s substr \<le> int (length s)"
  using Index_from_shift [of 0 s substr] by (simp add: Index_def)

lemma Index_Cons:
  "Index (c # s) substr =
     (if prefix substr (c # s) then 0 else if Index s substr < 0 then - 1 else Index s substr + 1)"
  using Index_from_shift [of 1 s substr] by (simp add: Index_def)

lemma Index_Nil: "Index [] substr = (if substr = [] then 0 else - 1)"
  by (simp add: Index_def)

text \<open>The index found is the first position where the substring starts.\<close>

lemma Index_found:
  "Index s substr = int p \<Longrightarrow>
     p \<le> length s \<and> prefix substr (drop p s) \<and> (\<forall>n<p. \<not> prefix substr (drop n s))"
proof (induction s arbitrary: p)
  case Nil
  then show ?case by (simp add: Index_Nil split: if_splits)
next
  case (Cons c s)
  show ?case
  proof (cases "prefix substr (c # s)")
    case True
    with Cons.prems show ?thesis by (simp add: Index_Cons)
  next
    case False
    with Cons.prems obtain p' where p: "p = Suc p'" "Index s substr = int p'"
      by (cases p) (auto simp: Index_Cons split: if_splits)
    from Cons.IH [OF p(2)] False p(1) show ?thesis
      by (auto simp: less_Suc_eq_0_disj)
  qed
qed

lemma Index_none:
  "Index s substr < 0 \<Longrightarrow> n \<le> length s \<Longrightarrow> \<not> prefix substr (drop n s)"
proof (induction s arbitrary: n)
  case Nil
  then show ?case by (simp add: Index_Nil split: if_splits)
next
  case (Cons c s)
  then show ?case
    by (cases n) (auto simp: Index_Cons split: if_splits)
qed

lemma Index_first:
  "p \<le> length s \<Longrightarrow> prefix substr (drop p s) \<Longrightarrow> (\<forall>n<p. \<not> prefix substr (drop n s)) \<Longrightarrow>
   Index s substr = int p"
proof -
  assume a: "p \<le> length s" "prefix substr (drop p s)" "\<forall>n<p. \<not> prefix substr (drop n s)"
  have "\<not> Index s substr < 0" using Index_none a(1,2) by blast
  then obtain p' where p': "Index s substr = int p'"
    using Index_range [of s substr] by (metis not_less zero_le_imp_eq_int)
  from Index_found [OF p'] a have "p' = p"
    by (meson linorder_neqE_nat)
  with p' show ?thesis by simp
qed

lemma Index_absent:
  "(\<forall>n\<le>length s. \<not> prefix substr (drop n s)) \<Longrightarrow> Index s substr = - 1"
proof -
  assume a: "\<forall>n\<le>length s. \<not> prefix substr (drop n s)"
  have "Index s substr < 0"
  proof (rule ccontr)
    assume "\<not> Index s substr < 0"
    then obtain p where "Index s substr = int p"
      by (metis not_less zero_le_imp_eq_int)
    from Index_found [OF this] a show False by blast
  qed
  with Index_range [of s substr] show ?thesis by simp
qed

lemma insertSqlClause_folded:
  "insertSqlClause querySql clause =
     (if spliceIndex (ToLower querySql) < int (length (ToLower querySql))
      then ((if Contains (ToLower querySql) ''where''
             then take (nat (spliceIndex (ToLower querySql))) querySql @ '' and ''
             else take (nat (spliceIndex (ToLower querySql))) querySql @ '' where '') @ clause) @
           drop (nat (spliceIndex (ToLower querySql))) querySql
      else (if Contains (ToLower querySql) ''where''
             then take (nat (spliceIndex (ToLower querySql))) querySql @ '' and ''
             else take (nat (spliceIndex (ToLower querySql))) querySql @ '' where '') @ clause)"
  unfolding insertSqlClause_def spliceIndex_def narrow_def Let_def
  by (rule refl)

lemma spliceIndex_le: "spliceIndex sql \<le> int (length sql)"
  by (simp add: spliceIndex_def narrow_def)

lemma length_ToLower [simp]: "length (ToLower s) = length s"
  by (simp add: ToLower_def)

lemma insertSqlClause_splice:
  "insertSqlClause querySql clause =
     take (nat (spliceIndex (ToLower querySql))) querySql @ clausePrefix (ToLower querySql) @
     clause @ drop (nat (spliceIndex (ToLower querySql))) querySql"
proof -
  have "spliceIndex (ToLower querySql) \<le> int (length querySql)"
    using spliceIndex_le [of "ToLower querySql"] by simp
  then show ?thesis
    unfolding insertSqlClause_folded clausePrefix_def by auto
qed

lemma keywords_overlap_free:
  "list_all (\<lambda>k. list_all (\<lambda>k'. overlap_free k k') clause_keywords) clause_keywords"
  by code_simp

lemma keywords_prefixes_overlap_free:
  "list_all (\<lambda>k. list_all (\<lambda>p. overlap_free k p) clause_prefixes) clause_keywords"
  by code_simp

lemma keywords_prefixes_apart:
  "list_all (\<lambda>k. list_all (\<lambda>p. apart k p) clause_prefixes) clause_keywords"
  by code_simp

lemma keywords_shape:
  "list_all (\<lambda>k. k \<noteq> [] \<and> hd k = CHR '' '') clause_keywords"
  by code_simp

lemma prefixes_shape:
  "list_all (\<lambda>p. p \<noteq> [] \<and> last p = CHR '' '' \<and> ToLower p = p) clause_prefixes"
  by code_simp

lemma where_no_space: "CHR '' '' \<notin> set ''where''"
  by simp


subsection \<open>Occurrences of a keyword around a spliced clause\<close>

lemma overlap_freeD:
  assumes "overlap_free k s" and "k = u @ v" and "u \<noteq> []" and "v \<noteq> []"
    and "prefix v x" and "prefix s x"
  shows False
proof -
  have l: "1 \<le> length u" using assms(3) by (cases u) simp_all
  have r: "length u < length k" using assms(2,4) by simp
  have v: "v = drop (length u) k" using assms(2) by simp
  from assms(1) have "\<forall>n\<in>{1..<length k}. \<not> prefix (drop n k) s \<and> \<not> prefix s (drop n k)"
    unfolding overlap_free_def list_all_iff set_upt .
  with l r have "\<not> prefix v s \<and> \<not> prefix s v"
    unfolding v by (meson atLeastLessThan_iff)
  moreover from assms(5,6) have "prefix v s \<or> prefix s v"
    by (rule prefix_same_cases)
  ultimately show False by blast
qed

lemma apartD:
  assumes "apart k p" and "m < length p - 1" and "prefix k (drop m p @ x)"
  shows False
proof -
  from assms(1,2) have "\<not> prefix k (drop m p) \<and> \<not> prefix (drop m p) k"
    unfolding apart_def list_all_iff by simp
  moreover have "prefix (drop m p) (drop m p @ x)" by simp
  with assms(3) have "prefix k (drop m p) \<or> prefix (drop m p) k"
    by (rule prefix_same_cases)
  ultimately show False by blast
qed

lemma keyword_facts:
  assumes "K \<in> set clause_keywords"
  shows "K \<noteq> []" and "hd K = CHR '' ''"
    and "K' \<in> set clause_keywords \<Longrightarrow> overlap_free K K'"
    and "P \<in> set clause_prefixes \<Longrightarrow> overlap_free K P"
    and "P \<in> set clause_prefixes \<Longrightarrow> apart K P"
  using assms keywords_shape keywords_overlap_free keywords_prefixes_overlap_free
    keywords_prefixes_apart
  unfolding list_all_iff by blast+

lemma prefix_facts:
  assumes "P \<in> set clause_prefixes"
  shows "P \<noteq> []" and "last P = CHR '' ''" and "ToLower P = P"
  using assms prefixes_shape unfolding list_all_iff by blast+

text \<open>
  In \<open>A @ P @ C @ B\<close>, where \<open>P\<close> is the prefix written before the clause \<open>C\<close>, and the
  rest \<open>B\<close> is empty or starts with a keyword, and no keyword occurs in \<open>C\<close> after a
  space: an occurrence of a keyword that starts before \<open>B\<close> lies inside \<open>A\<close>.
\<close>

lemma no_early_occurrence:
  assumes K: "K \<in> set clause_keywords" and P: "P \<in> set clause_prefixes"
    and B: "B = [] \<or> (\<exists>K'\<in>set clause_keywords. prefix K' B)"
    and C: "\<not> Contains (CHR '' '' # C) K"
    and occ: "prefix K (drop n (A @ P @ C @ B))"
    and n: "n < length A + length P + length C"
  shows "prefix K (drop n A)"
proof -
  note kf = keyword_facts [OF K] and pf = prefix_facts [OF P]
  have tail: False if "K = u @ v" "u \<noteq> []" "v \<noteq> []" "prefix v B" for u v
  proof -
    from that(3,4) have "B \<noteq> []" by auto
    with B obtain K' where K': "K' \<in> set clause_keywords" "prefix K' B" by blast
    from overlap_freeD [OF kf(3) [OF K'(1)] that(1-4) K'(2)] show False .
  qed
  consider (inA) "n < length A"
    | (inP) "length A \<le> n" "n - length A < length P - 1"
    | (inC) "length A \<le> n" "length P - 1 \<le> n - length A"
    by linarith
  then show ?thesis
  proof cases
    case inA
    then have u: "drop n A \<noteq> []" by simp
    from occ inA have "prefix K (drop n A @ (P @ C @ B))" by simp
    then consider "prefix K (drop n A)" | v where "K = drop n A @ v" "prefix v (P @ C @ B)"
      unfolding prefix_append by blast
    then show ?thesis
    proof cases
      case 1
      then show ?thesis .
    next
      case 2
      show ?thesis
      proof (cases "v = []")
        case True
        with 2(1) show ?thesis by simp
      next
        case False
        have "prefix P (P @ C @ B)" by simp
        from overlap_freeD [OF kf(4) [OF P] 2(1) u False 2(2) this] show ?thesis ..
      qed
    qed
  next
    case inP
    from occ inP have "prefix K (drop (n - length A) P @ (C @ B))" by simp
    from apartD [OF kf(5) [OF P] inP(2) this] show ?thesis ..
  next
    case inC
    define S where "S = CHR '' '' # C"
    define m where "m = n - length A - (length P - 1)"
    have PS: "P @ C = butlast P @ S"
      using pf(1,2) unfolding S_def by (metis append.assoc append_Cons append_Nil append_butlast_last_id)
    have m: "m < length S" using n inC pf(1) unfolding m_def S_def by (cases P) auto
    have "drop n (A @ P @ C @ B) = drop (n - length A) ((P @ C) @ B)" using inC by simp
    also have "\<dots> = drop (n - length A) (butlast P @ (S @ B))" by (simp add: PS)
    also have "\<dots> = drop m (S @ B)" using inC by (simp add: m_def)
    also have "\<dots> = drop m S @ B" using m by simp
    finally have "prefix K (drop m S @ B)" using occ by simp
    then consider "prefix K (drop m S)" | v where "K = drop m S @ v" "prefix v B"
      unfolding prefix_append by blast
    then show ?thesis
    proof cases
      case 1
      have "Index S K < 0" using C unfolding S_def Contains_def by simp
      from Index_none [OF this, of m] m 1 show ?thesis by simp
    next
      case 2
      show ?thesis
      proof (cases "v = []")
        case True
        with 2(1) have 1: "prefix K (drop m S)" by simp
        have "Index S K < 0" using C unfolding S_def Contains_def by simp
        from Index_none [OF this, of m] m 1 show ?thesis by simp
      next
        case False
        have "drop m S \<noteq> []" using m by simp
        from tail [OF 2(1) this False 2(2)] show ?thesis ..
      qed
    qed
  qed
qed

lemma narrow_shift:
  "- 1 \<le> p \<Longrightarrow> 0 \<le> m \<Longrightarrow>
   narrow (if p > 0 then p + m else p) (x + m) = narrow p x + m"
  by (auto simp: narrow_def)

lemma spliceIndex_cases:
  "spliceIndex sql = int (length sql) \<or>
   (\<exists>K\<in>set clause_keywords. spliceIndex sql = Index sql K \<and> 0 < Index sql K)"
  unfolding spliceIndex_def narrow_def clause_keywords_def by auto

lemma spliceIndex_first:
  "K \<in> set clause_keywords \<Longrightarrow> 0 < Index sql K \<Longrightarrow> spliceIndex sql \<le> Index sql K"
  unfolding spliceIndex_def narrow_def clause_keywords_def by auto

lemma spliceIndex_nonneg: "0 \<le> spliceIndex sql"
  unfolding spliceIndex_def narrow_def by auto

text \<open>What follows the splice point is empty or starts with a keyword.\<close>

lemma drop_spliceIndex:
  "drop (nat (spliceIndex sql)) sql = [] \<or>
   (\<exists>K\<in>set clause_keywords. prefix K (drop (nat (spliceIndex sql)) sql))"
proof -
  from spliceIndex_cases [of sql] show ?thesis
  proof
    assume "spliceIndex sql = int (length sql)"
    then show ?thesis by simp
  next
    assume "\<exists>K\<in>set clause_keywords. spliceIndex sql = Index sql K \<and> 0 < Index sql K"
    then obtain K where K: "K \<in> set clause_keywords" "spliceIndex sql = Index sql K"
      "0 < Index sql K" by blast
    then have "Index sql K = int (nat (spliceIndex sql))" by simp
    from Index_found [OF this] K(1) show ?thesis by blast
  qed
qed

text \<open>
  The first occurrence of a keyword after the clause has been spliced in: unchanged
  when it was at \<open>0\<close> or absent, moved by the length of what was spliced in otherwise.
\<close>

lemma Index_after_splice:
  assumes K: "K \<in> set clause_keywords" and P: "P \<in> set clause_prefixes"
    and C: "\<not> Contains (CHR '' '' # C) K"
    and i: "i = nat (spliceIndex sql)"
  shows "Index (take i sql @ P @ C @ drop i sql) K =
         (if Index sql K > 0 then Index sql K + int (length P + length C) else Index sql K)"
proof -
  define A where "A = take i sql"
  define B where "B = drop i sql"
  define t where "t = A @ P @ C @ B"
  define m where "m = length P + length C"
  note kf = keyword_facts [OF K]
  have sql: "sql = A @ B" by (simp add: A_def B_def)
  have ile: "i \<le> length sql"
    using spliceIndex_le [of sql] spliceIndex_nonneg [of sql] i by simp
  have lenA: "length A = i" using ile by (simp add: A_def)
  have B: "B = [] \<or> (\<exists>K'\<in>set clause_keywords. prefix K' B)"
    using drop_spliceIndex [of sql] by (simp add: B_def i)
  have early: "prefix K (drop n A)" if "prefix K (drop n t)" "n < length A + m" for n
    using no_early_occurrence [OF K P B C, of n A] that by (simp add: t_def m_def)
  have inA: "prefix K (drop n sql) \<and> n + length K \<le> i" if "prefix K (drop n A)" for n
  proof -
    from that have "length K \<le> length (drop n A)" by (rule prefix_length_le)
    with kf(1) have n: "n < length A" "n + length K \<le> length A" by (cases K; simp)+
    from that have "prefix K (drop n A @ B)" by (rule prefix_prefix)
    with n lenA show ?thesis by (simp add: sql)
  qed
  have late: "drop n t = drop (n - m) sql" if "length A + m \<le> n" for n
    using that lenA ile by (simp add: t_def m_def sql ac_simps)
  have late': "drop (n + m) t = drop n sql" if "i \<le> n" for n
    using late [of "n + m"] that lenA by simp
  have range: "- 1 \<le> Index sql K" using Index_range [of sql K] by simp
  consider (absent) "Index sql K = - 1" | (zero) "Index sql K = 0" | (pos) "0 < Index sql K"
    using range by linarith
  then have "Index t K = (if Index sql K > 0 then Index sql K + int m else Index sql K)"
  proof cases
    case absent
    then have none: "\<not> prefix K (drop n sql)" if "n \<le> length sql" for n
      using Index_none [of sql K n] that by simp
    have "Index t K = - 1"
    proof (rule Index_absent, intro allI impI)
      fix n assume n: "n \<le> length t"
      show "\<not> prefix K (drop n t)"
      proof
        assume occ: "prefix K (drop n t)"
        show False
        proof (cases "n < length A + m")
          case True
          from inA [OF early [OF occ True]] none [of n] ile show False by simp
        next
          case False
          with occ late [of n] have "prefix K (drop (n - m) sql)" by simp
          moreover have "n - m \<le> length sql" using n by (simp add: t_def m_def sql)
          ultimately show False using none by blast
        qed
      qed
    qed
    with absent show ?thesis by simp
  next
    case zero
    then have "Index sql K = int 0" by simp
    from Index_found [OF this] have p: "prefix K sql" by simp
    have "length K \<le> i"
    proof (rule ccontr)
      assume "\<not> length K \<le> i"
      then have lt: "i < length K" by simp
      with p ile have "B \<noteq> []" using prefix_length_le [OF p] by (simp add: B_def)
      with B obtain K' where K': "K' \<in> set clause_keywords" "prefix K' B" by blast
      have "i \<noteq> 0"
      proof
        assume "i = 0"
        then have "spliceIndex sql = 0" using i spliceIndex_nonneg [of sql] by simp
        with spliceIndex_cases [of sql] have "sql = []" by auto
        with \<open>B \<noteq> []\<close> show False by (simp add: B_def)
      qed
      from p obtain r where r: "sql = K @ r" by (auto simp: prefix_def)
      have KA: "K = A @ drop i K" using lt r by (simp add: A_def)
      have "B = drop i K @ r" using lt r by (simp add: B_def)
      then have "prefix (drop i K) B" by simp
      from overlap_freeD [OF kf(3) [OF K'(1)] KA _ _ this K'(2)] lt \<open>i \<noteq> 0\<close> lenA
      show False by auto
    qed
    with p have "prefix K A" by (simp add: A_def prefix_def) (metis append_eq_conv_conj take_append
          append_take_drop_id take_all take_take)
    then have "prefix K (drop 0 t)" by (simp add: t_def)
    then have "Index t K = int 0" by (intro Index_first) simp_all
    with zero show ?thesis by simp
  next
    case pos
    define p where "p = nat (Index sql K)"
    have pI: "Index sql K = int p" using pos by (simp add: p_def)
    from Index_found [OF pI] have p: "p \<le> length sql" "prefix K (drop p sql)"
      "\<And>n. n < p \<Longrightarrow> \<not> prefix K (drop n sql)" by blast+
    have ip: "i \<le> p" using spliceIndex_first [OF K pos] i pI by simp
    have "Index t K = int (p + m)"
    proof (rule Index_first, goal_cases)
      case 1
      show ?case using p(1) by (simp add: t_def m_def sql)
    next
      case 2
      show ?case using late' [OF ip] p(2) by simp
    next
      case 3
      show ?case
      proof (intro allI impI)
        fix n assume n: "n < p + m"
        show "\<not> prefix K (drop n t)"
        proof
          assume occ: "prefix K (drop n t)"
          show False
          proof (cases "n < length A + m")
            case True
            from inA [OF early [OF occ True]] have "prefix K (drop n sql)" "n + length K \<le> i"
              by simp_all
            moreover from this(2) kf(1) ip have "n < p" by (cases K) simp_all
            ultimately show False using p(3) by blast
          next
            case False
            with occ late [of n] have "prefix K (drop (n - m) sql)" by simp
            moreover have "n - m < p" using n False by simp
            ultimately show False using p(3) by blast
          qed
        qed
      qed
    qed
    with pos pI show ?thesis by simp
  qed
  then show ?thesis by (simp add: t_def A_def B_def m_def)
qed

lemma spliceIndex_after_splice:
  assumes P: "P \<in> set clause_prefixes"
    and C: "list_all (\<lambda>K. \<not> Contains (CHR '' '' # C) K) clause_keywords"
    and i: "i = nat (spliceIndex sql)"
  shows "spliceIndex (take i sql @ P @ C @ drop i sql) = int (i + length P + length C)"
proof -
  define m where "m = int (length P + length C)"
  define t where "t = take i sql @ P @ C @ drop i sql"
  have idx: "Index t K = (if Index sql K > 0 then Index sql K + m else Index sql K)"
    if "K \<in> set clause_keywords" for K
    using Index_after_splice [OF that P _ i, of C] C that
    unfolding list_all_iff t_def m_def by blast
  have r: "- 1 \<le> Index sql K" for K using Index_range [of sql K] by simp
  have m0: "0 \<le> m" by (simp add: m_def)
  have len: "int (length t) = int (length sql) + m"
    by (simp add: t_def m_def)
  have "spliceIndex t = spliceIndex sql + m"
    unfolding spliceIndex_def len
    by (simp only: idx clause_keywords_def list.set insert_iff simp_thms
        narrow_shift [OF r m0])
  moreover have "0 \<le> spliceIndex sql" by (rule spliceIndex_nonneg)
  ultimately show ?thesis by (simp add: t_def m_def i)
qed

lemma Contains_iff: "Contains s substr = (\<exists>n\<le>length s. prefix substr (drop n s))"
proof
  assume "Contains s substr"
  then obtain p where "Index s substr = int p"
    unfolding Contains_def by (metis zero_le_imp_eq_int)
  from Index_found [OF this] show "\<exists>n\<le>length s. prefix substr (drop n s)" by blast
next
  assume "\<exists>n\<le>length s. prefix substr (drop n s)"
  then obtain n where "n \<le> length s" "prefix substr (drop n s)" by blast
  with Index_none [of s substr n] show "Contains s substr"
    unfolding Contains_def by fastforce
qed

text \<open>
  An occurrence of \<open>where\<close> survives the splice: it cannot lie across the splice
  point, where a space follows.
\<close>

lemma Contains_where_after_splice:
  assumes P: "P \<in> set clause_prefixes" and i: "i = nat (spliceIndex sql)"
    and w: "Contains sql ''where'' \<or> P = '' where ''"
  shows "Contains (take i sql @ P @ C @ drop i sql) ''where''"
proof (cases "P = '' where ''")
  case True
  have "prefix ''where'' (drop (length (take i sql) + 1) (take i sql @ P @ C @ drop i sql))"
    unfolding True by simp
  moreover have "length (take i sql) + 1 \<le> length (take i sql @ P @ C @ drop i sql)"
    unfolding True by simp
  ultimately show ?thesis unfolding Contains_iff by blast
next
  case False
  define A where "A = take i sql"
  define B where "B = drop i sql"
  have sql: "sql = A @ B" by (simp add: A_def B_def)
  from False w obtain n where n: "n \<le> length sql" "prefix ''where'' (drop n sql)"
    unfolding Contains_iff by blast
  have B: "B = [] \<or> (\<exists>K'\<in>set clause_keywords. prefix K' B)"
    using drop_spliceIndex [of sql] by (simp add: B_def i)
  show ?thesis
  proof (cases "n < length A")
    case True
    from n(2) True have "prefix ''where'' (drop n A @ B)" by (simp add: sql)
    then consider "prefix ''where'' (drop n A)"
      | v where "''where'' = drop n A @ v" "prefix v B" "v \<noteq> []"
      unfolding prefix_append by (metis append_Nil2 prefix_order.order_refl)
    then show ?thesis
    proof cases
      case 1
      then have "prefix ''where'' (drop n (A @ P @ C @ B))"
        using True by simp
      moreover have "n \<le> length (A @ P @ C @ B)" using True by simp
      ultimately show ?thesis unfolding Contains_iff A_def B_def by blast
    next
      case 2
      from 2(2,3) have "B \<noteq> []" by auto
      with B obtain K' where K': "K' \<in> set clause_keywords" "prefix K' B" by blast
      from keyword_facts(1,2) [OF K'(1)] K'(2) \<open>B \<noteq> []\<close> have "hd B = CHR '' ''"
        by (cases K'; cases B) auto
      with 2(2,3) \<open>B \<noteq> []\<close> have "hd v = CHR '' ''" by (cases v; cases B) auto
      with 2(3) have "CHR '' '' \<in> set v" by (cases v) auto
      then have "CHR '' '' \<in> set (drop n A @ v)" by simp
      with 2(1) show ?thesis by (metis where_no_space)
    qed
  next
    case False
    then have "drop (n + length P + length C) (A @ P @ C @ B) = drop n sql"
      by (simp add: sql ac_simps)
    with n(2) have "prefix ''where'' (drop (n + length P + length C) (A @ P @ C @ B))" by simp
    moreover have "n + length P + length C \<le> length (A @ P @ C @ B)"
      using n(1) by (simp add: sql)
    ultimately show ?thesis unfolding Contains_iff A_def B_def by blast
  qed
qed

lemma ToLower_append [simp]: "ToLower (a @ b) = ToLower a @ ToLower b"
  by (simp add: ToLower_def)

lemma ToLower_take [simp]: "ToLower (take n s) = take n (ToLower s)"
  by (simp add: ToLower_def take_map)

lemma ToLower_drop [simp]: "ToLower (drop n s) = drop n (ToLower s)"
  by (simp add: ToLower_def drop_map)

lemma clausePrefix_in: "clausePrefix sql \<in> set clause_prefixes"
  by (simp add: clausePrefix_def clause_prefixes_def)

lemma insertSqlClause_twice_splice:
  assumes C: "list_all (\<lambda>K. \<not> Contains (CHR '' '' # ToLower c1) K) clause_keywords"
    and i: "i = nat (spliceIndex (ToLower q))"
  shows "insertSqlClause (insertSqlClause q c1) c2 =
         take i q @ clausePrefix (ToLower q) @ c1 @ '' and '' @ c2 @ drop i q"
proof -
  define P where "P = clausePrefix (ToLower q)"
  define s1 where "s1 = take i q @ P @ c1 @ drop i q"
  have P: "P \<in> set clause_prefixes" unfolding P_def by (rule clausePrefix_in)
  have s1: "insertSqlClause q c1 = s1"
    unfolding s1_def P_def i by (rule insertSqlClause_splice)
  have ile: "i \<le> length q"
    using spliceIndex_le [of "ToLower q"] i by simp
  have low: "ToLower s1 = take i (ToLower q) @ P @ ToLower c1 @ drop i (ToLower q)"
    unfolding s1_def using prefix_facts(3) [OF P] by simp
  have idx: "spliceIndex (ToLower s1) = int (i + length P + length c1)"
    unfolding low using spliceIndex_after_splice [OF P C i] by simp
  then have idxn: "nat (spliceIndex (ToLower s1)) = i + length P + length c1" by simp
  have "Contains (ToLower q) ''where'' \<or> P = '' where ''"
    by (simp add: P_def clausePrefix_def)
  from Contains_where_after_splice [OF P i this]
  have pre: "clausePrefix (ToLower s1) = '' and ''"
    unfolding low clausePrefix_def by simp
  have "insertSqlClause s1 c2 =
        take (i + length P + length c1) s1 @ '' and '' @ c2 @ drop (i + length P + length c1) s1"
    unfolding insertSqlClause_splice [of s1 c2] idxn pre by simp
  also have "take (i + length P + length c1) s1 = take i q @ P @ c1"
    using ile by (simp add: s1_def)
  also have "drop (i + length P + length c1) s1 = drop i q"
    using ile by (simp add: s1_def)
  finally show ?thesis unfolding s1 P_def by simp
qed

lemma narrow_min:
  "- 1 \<le> p \<Longrightarrow> p \<noteq> 0 \<Longrightarrow> narrow p x = (if p \<ge> 0 then min p x else x)"
  by (auto simp: narrow_def min_def)

lemma fold_min_found_Cons:
  "fold min (filter (\<lambda>idx. idx \<ge> 0) (p # ps)) n =
   fold min (filter (\<lambda>idx. idx \<ge> (0::int)) ps) (if p \<ge> 0 then min p n else n)"
  by simp

text \<open>
  Where no keyword stands at the very start of the SQL, the code splices where the
  specification says.
\<close>

lemma insertSqlClause_refines_spec:
  assumes "list_all (\<lambda>K. Index (ToLower querySql) K \<noteq> 0) clause_keywords"
  shows "insertSqlClause querySql clause = insert_sql_clause_spec querySql clause"
proof -
  define sql where "sql = ToLower querySql"
  have n: "narrow (Index sql K) x = (if Index sql K \<ge> 0 then min (Index sql K) x else x)"
    if "K \<in> set clause_keywords" for K x
    using that assms Index_range [of sql K]
    unfolding sql_def [symmetric] list_all_iff by (intro narrow_min) auto
  have "fold min (filter (\<lambda>idx. idx \<ge> 0) (map (Index sql) clause_keywords)) (int (length sql)) =
        spliceIndex sql"
    unfolding spliceIndex_def clause_keywords_def list.map fold_min_found_Cons
    by (simp add: n clause_keywords_def)
  then show ?thesis
    unfolding insertSqlClause_splice insert_sql_clause_spec_def clausePrefix_def Let_def
      sql_def [symmetric]
    by simp
qed

text \<open>
  C4. \<open>insert_sql_clause\<close> splices the clause, after \<open>and\<close> or \<open>where\<close>, at the
  minimum of the leftmost occurrences of the four keywords, the end of the string
  when none occurs. The code does so but for a keyword at the very start of the SQL:
  it takes a keyword's index only when it is \<open>> 0\<close>, so for the SQL \<open> limit 1\<close> it
  appends the clause at the end, where the specification puts it at index \<open>0\<close>.
\<close>

theorem insertSqlClause_keyword_at_start:
  "insertSqlClause '' limit 1'' ''a=1'' = '' limit 1 where a=1''
   \<and> insert_sql_clause_spec '' limit 1'' ''a=1'' = '' where a=1 limit 1''"
  by code_simp

text \<open>The example of the specification, on the code and on the specification's words.\<close>

lemma insertSqlClause_example:
  "insertSqlClause ''SELECT * FROM t WHERE a=1 ORDER BY b LIMIT 10'' ''id in (:e0,:e1)'' =
     ''SELECT * FROM t WHERE a=1 and id in (:e0,:e1) ORDER BY b LIMIT 10''
   \<and> insert_sql_clause_spec ''SELECT * FROM t WHERE a=1 ORDER BY b LIMIT 10'' ''id in (:e0,:e1)'' =
     ''SELECT * FROM t WHERE a=1 and id in (:e0,:e1) ORDER BY b LIMIT 10''"
  by code_simp

lemma ToLower_space: "ToLower (CHR '' '' # c) = CHR '' '' # ToLower c"
  by (simp add: ToLower_def toLowerByte_def)

text \<open>
  C5, as amended. For ASCII \<open>q\<close> and \<open>c1\<close>, when none of the four keywords occurs in
  the lower-cased \<open>c1\<close> preceded by a space, inserting \<open>c1\<close> and then \<open>c2\<close> gives
  \<open>q[:idx] + prefix + c1 + " and " + c2 + q[idx:]\<close>, with \<open>idx\<close> and \<open>prefix\<close> the
  splice index and the prefix of the first insertion: each clause is spliced in once,
  \<open>c1\<close> before \<open>c2\<close>.
\<close>

theorem insertSqlClause_twice:
  assumes "isASCII q" and "isASCII c1"
    and "list_all (\<lambda>K. \<not> Contains (ToLower ('' '' @ c1)) K) clause_keywords"
    and "idx = nat (spliceIndex (ToLower q))"
    and "pre = clausePrefix (ToLower q)"
  shows "insertSqlClause q c1 = take idx q @ pre @ c1 @ drop idx q
         \<and> insertSqlClause (insertSqlClause q c1) c2 =
           take idx q @ pre @ c1 @ '' and '' @ c2 @ drop idx q"
  using insertSqlClause_twice_splice [of c1 idx q c2] insertSqlClause_splice [of q c1] assms(3-5)
  by (simp add: ToLower_space)

theorem insertSqlClause_twice_witness:
  "isASCII ''SELECT * FROM t ORDER BY b'' \<and> isASCII ''id in (:id0)''
   \<and> list_all (\<lambda>K. \<not> Contains (ToLower ('' '' @ ''id in (:id0)'')) K) clause_keywords
   \<and> insertSqlClause ''SELECT * FROM t ORDER BY b'' ''id in (:id0)'' =
       ''SELECT * FROM t where id in (:id0) ORDER BY b''
   \<and> insertSqlClause (insertSqlClause ''SELECT * FROM t ORDER BY b'' ''id in (:id0)'') ''x = 1'' =
       ''SELECT * FROM t where id in (:id0) and x = 1 ORDER BY b''"
proof -
  have a: "isASCII ''SELECT * FROM t ORDER BY b''" by code_simp
  have b: "isASCII ''id in (:id0)''" by code_simp
  have c: "list_all (\<lambda>K. \<not> Contains (ToLower ('' '' @ ''id in (:id0)'')) K) clause_keywords"
    by code_simp
  have i: "15 = nat (spliceIndex (ToLower ''SELECT * FROM t ORDER BY b''))" by code_simp
  have p: "'' where '' = clausePrefix (ToLower ''SELECT * FROM t ORDER BY b'')" by code_simp
  have e1: "take 15 ''SELECT * FROM t ORDER BY b'' @ '' where '' @ ''id in (:id0)'' @
      drop 15 ''SELECT * FROM t ORDER BY b'' = ''SELECT * FROM t where id in (:id0) ORDER BY b''"
    by simp
  have e2: "take 15 ''SELECT * FROM t ORDER BY b'' @ '' where '' @ ''id in (:id0)'' @ '' and '' @
      ''x = 1'' @ drop 15 ''SELECT * FROM t ORDER BY b'' =
      ''SELECT * FROM t where id in (:id0) and x = 1 ORDER BY b''"
    by simp
  from insertSqlClause_twice [OF a b c i p, of "''x = 1''", unfolded e1 e2] a b c
  show ?thesis by blast
qed

text \<open>
  The claim as stated fails for a first clause that starts with \<open>limit\<close>: after the
  prefix it reads as the keyword, and the second clause lands before the first.
\<close>

theorem insertSqlClause_twice_out_of_order:
  "insertSqlClause (insertSqlClause ''select 1'' ''limit_col = 3'') ''b = 2'' =
     ''select 1 where and b = 2 limit_col = 3''
   \<and> \<not> once_each_in_order
       (insertSqlClause (insertSqlClause ''select 1'' ''limit_col = 3'') ''b = 2'')
       ''limit_col = 3'' ''b = 2''"
  by code_simp

section \<open>buildEntityIds\<close>

subsection \<open>Decimal names\<close>

lemma digit_inj: "a < 10 \<Longrightarrow> b < 10 \<Longrightarrow> digit a = digit b \<Longrightarrow> a = b"
proof -
  assume a: "a < 10" and b: "b < 10" and e: "digit a = digit b"
  from e have "of_char (digit a) = (of_char (digit b) :: nat)" by simp
  with a b show "a = b" by (simp add: digit_def)
qed

lemma itoa_nonempty: "itoa n \<noteq> []"
  by (subst itoa.simps) simp

lemma itoa_inj: "itoa a = itoa b \<Longrightarrow> a = b"
proof (induction a arbitrary: b rule: itoa.induct)
  case (1 n)
  show ?case
  proof (cases "n < 10")
    case True
    then have n: "itoa n = [digit n]" by (subst itoa.simps) simp
    show ?thesis
    proof (cases "b < 10")
      case b: True
      then have "itoa b = [digit b]" by (subst itoa.simps) simp
      with n "1.prems" True b show ?thesis by (auto dest: digit_inj)
    next
      case False
      then have "itoa b = itoa (b div 10) @ [digit (b mod 10)]" by (subst itoa.simps) simp
      with n "1.prems" itoa_nonempty [of "b div 10"] show ?thesis by simp
    qed
  next
    case False
    then have n: "itoa n = itoa (n div 10) @ [digit (n mod 10)]" by (subst itoa.simps) simp
    show ?thesis
    proof (cases "b < 10")
      case True
      then have "itoa b = [digit b]" by (subst itoa.simps) simp
      with n "1.prems" itoa_nonempty [of "n div 10"] show ?thesis by simp
    next
      case b: False
      then have "itoa b = itoa (b div 10) @ [digit (b mod 10)]" by (subst itoa.simps) simp
      with n "1.prems" have e: "itoa (n div 10) = itoa (b div 10)"
        "digit (n mod 10) = digit (b mod 10)" by simp_all
      from "1.IH" [OF False e(1)] have "n div 10 = b div 10" .
      moreover from e(2) have "n mod 10 = b mod 10" by (intro digit_inj) simp_all
      ultimately show ?thesis by (metis div_mult_mod_eq)
    qed
  qed
qed

lemma entity_name_inj: "col @ itoa a = col @ itoa b \<Longrightarrow> a = b"
  by (simp add: itoa_inj)

subsection \<open>The loops of buildEntityIds\<close>

lemma buildEntityIds_kids_other:
  "(\<forall>n<length kids. name \<noteq> col @ itoa (i + n)) \<Longrightarrow>
   fst (buildEntityIds_kids col kids i bindVar b) name = bindVar name"
proof (induction kids arbitrary: i bindVar b)
  case Nil
  then show ?case by simp
next
  case (Cons kid kids)
  have "\<forall>n<length kids. name \<noteq> col @ itoa (Suc i + n)"
    using Cons.prems by (metis Suc_less_eq add_Suc_shift length_Cons)
  from Cons.IH [OF this] Cons.prems show ?case
    by (auto simp: Let_def)
qed

lemma buildEntityIds_kids_bound:
  "n < length kids \<Longrightarrow>
   fst (buildEntityIds_kids col kids i bindVar b) (col @ itoa (i + n)) =
   Some (KeyspaceIdV (kids ! n))"
proof (induction kids arbitrary: i bindVar b n)
  case Nil
  then show ?case by simp
next
  case (Cons kid kids)
  show ?case
  proof (cases n)
    case 0
    have q: "\<forall>m<length kids. col @ itoa i \<noteq> col @ itoa (Suc i + m)"
      by (auto dest: itoa_inj)
    have o: "fst (buildEntityIds_kids col kids (Suc i) bindVar' b') (col @ itoa i) =
             bindVar' (col @ itoa i)" for bindVar' :: "'a BindVars" and b'
      by (rule buildEntityIds_kids_other [OF q])
    show ?thesis
      unfolding 0 by (simp add: Let_def o split del: if_split)
  next
    case (Suc n')
    with Cons.prems have "n' < length kids" by simp
    from Cons.IH [OF this, of "Suc i"] Suc show ?thesis
      by (simp add: Let_def)
  qed
qed

lemma join_names_Cons:
  "join_names (name # names) =
   '':'' @ name @ (if names = [] then [] else '', '' @ join_names names)"
  by (cases names) simp_all

lemma buildEntityIds_kids_buffer:
  "snd (buildEntityIds_kids col kids i bindVar b) =
   b @ (if kids = [] then [] else
          (if i > 0 then '', '' else []) @
          join_names (map (\<lambda>n. col @ itoa n) [i..<i + length kids]))"
proof (induction kids arbitrary: i bindVar b)
  case Nil
  then show ?case by simp
next
  case (Cons kid kids)
  have u: "[i..<i + length (kid # kids)] = i # [Suc i..<Suc i + length kids]"
    by (subst upt_rec) simp
  show ?case
    unfolding u list.map join_names_Cons
    by (simp add: Let_def Cons.IH Suc_le_eq)
qed

lemma buildEntityIds_buffer:
  "snd (buildEntityIds_kids col kids 0 bindVar (col @ '' in ('')) @ '')'' =
   in_clause col (length kids)"
  unfolding buildEntityIds_kids_buffer in_clause_def entity_names_def
  by simp

lemma buildEntityIds_shards_result:
  assumes "distinct (map fst shardMap)"
  shows "buildEntityIds_shards shardMap qSql col qBindVars (shards, sqls, bindVars) =
     (shards @ map fst shardMap,
      (\<lambda>shard. case map_of shardMap shard of
                  Some kids \<Rightarrow> Some (insertSqlClause qSql (in_clause col (length kids)))
                | None \<Rightarrow> sqls shard),
      (\<lambda>shard. case map_of shardMap shard of
                  Some kids \<Rightarrow> Some (fst (buildEntityIds_kids col kids 0 qBindVars
                                             (col @ '' in ('')))
                | None \<Rightarrow> bindVars shard))"
  using assms
proof (induction shardMap arbitrary: shards sqls bindVars)
  case Nil
  then show ?case by simp
next
  case (Cons entry shardMap)
  obtain shard kids where entry: "entry = (shard, kids)" by (cases entry)
  from Cons.prems entry have d: "distinct (map fst shardMap)" and n: "map_of shardMap shard = None"
    by (auto simp: map_of_eq_None_iff)
  obtain bindVar b where l:
    "buildEntityIds_kids col kids 0 qBindVars (col @ '' in ('') = (bindVar, b)"
    by (cases "buildEntityIds_kids col kids 0 qBindVars (col @ '' in ('')")
  have b: "b @ '')'' = in_clause col (length kids)"
    using buildEntityIds_buffer [of col kids qBindVars] l by simp
  have bv: "bindVar = fst (buildEntityIds_kids col kids 0 qBindVars (col @ '' in (''))"
    using l by simp
  show ?case
    unfolding entry buildEntityIds_shards.simps Let_def l prod.case Cons.IH [OF d] b
    using n by (auto simp: bv fun_eq_iff split: option.splits)
qed

lemma buildEntityIds_result:
  assumes "distinct (map fst shardMap)"
  shows "buildEntityIds shardMap qSql col qBindVars =
     (map fst shardMap,
      (\<lambda>shard. case map_of shardMap shard of
                  Some kids \<Rightarrow> Some (insertSqlClause qSql (in_clause col (length kids)))
                | None \<Rightarrow> None),
      (\<lambda>shard. case map_of shardMap shard of
                  Some kids \<Rightarrow> Some (fst (buildEntityIds_kids col kids 0 qBindVars
                                             (col @ '' in ('')))
                | None \<Rightarrow> None))"
  unfolding buildEntityIds_def buildEntityIds_shards_result [OF assms] by simp

lemma entityIds_of_read:
  assumes "\<forall>n<length kids. bindVar (col @ itoa n) = Some (KeyspaceIdV (kids ! n))"
    and "bindVar (col @ itoa (length kids)) = None"
  shows "i \<le> length kids \<Longrightarrow> entityIds_of col bindVar i = Some (drop i kids)"
proof (induction "length kids - i" arbitrary: i)
  case 0
  then have "i = length kids" by simp
  with assms(2) show ?case by (subst entityIds_of.simps) simp
next
  case (Suc d)
  then have i: "i < length kids" and d: "d = length kids - Suc i" by simp_all
  from Suc.hyps(1) [OF d] i have "entityIds_of col bindVar (Suc i) = Some (drop (Suc i) kids)"
    by simp
  with assms(1) i show ?case
    by (subst entityIds_of.simps) (simp add: Cons_nth_drop_Suc)
qed

lemma entity_names_iff:
  "name \<in> set (entity_names col n) = (\<exists>i<n. name = col @ itoa i)"
  by (auto simp: entity_names_def)

text \<open>
  C7, as amended. For a shard map with distinct keys (in the order the loop visits
  it), ASCII SQL, a column name and bind variables, \<open>buildEntityIds\<close> returns the
  shards in that order and, for each shard with its keyspace ids, (a) a map that binds
  the name made of the column name and \<open>i\<close> to the \<open>i\<close>-th id, for each index \<open>i\<close>, and
  agrees with the original bind variables on every other name (an original variable
  that carries one of these names is overwritten), and (b) the SQL that
  \<open>insertSqlClause\<close> makes of the input SQL and the IN-clause over these names. When
  no original variable carries a name made of the column name and an index,
  regrouping the output by shard gives back the shard map.
\<close>

theorem buildEntityIds_per_shard:
  assumes "distinct (map fst shardMap)" and "isASCII qSql"
    and "buildEntityIds shardMap qSql entityColName qBindVars = (shards, sqls, bindVars)"
    and "(shard, kids) \<in> set shardMap"
  shows "(\<exists>bindVar. bindVars shard = Some bindVar
            \<and> (\<forall>i<length kids. bindVar (entityColName @ itoa i) = Some (KeyspaceIdV (kids ! i)))
            \<and> (\<forall>name. name \<notin> set (entity_names entityColName (length kids)) \<longrightarrow>
                  bindVar name = qBindVars name))
         \<and> sqls shard = Some (insertSqlClause qSql (in_clause entityColName (length kids)))
         \<and> shards = map fst shardMap
         \<and> ((\<forall>i. qBindVars (entityColName @ itoa i) = None) \<longrightarrow>
              regroup entityColName (shards, sqls, bindVars) =
              map (\<lambda>(shard, kids). (shard, Some kids)) shardMap)"
proof -
  let ?bv = "\<lambda>kids. fst (buildEntityIds_kids entityColName kids 0 qBindVars
                          (entityColName @ '' in (''))"
  note r = buildEntityIds_result [OF assms(1), of qSql entityColName qBindVars]
  from assms(3) r have shards: "shards = map fst shardMap"
    and sqls: "sqls = (\<lambda>shard. case map_of shardMap shard of
                  Some kids \<Rightarrow> Some (insertSqlClause qSql (in_clause entityColName (length kids)))
                | None \<Rightarrow> None)"
    and bindVars: "bindVars = (\<lambda>shard. case map_of shardMap shard of
                  Some kids \<Rightarrow> Some (?bv kids) | None \<Rightarrow> None)"
    by simp_all
  have bound: "?bv ks (entityColName @ itoa i) = Some (KeyspaceIdV (ks ! i))"
    if "i < length ks" for ks i
    using buildEntityIds_kids_bound [OF that, of entityColName 0] by simp
  have other: "?bv ks name = qBindVars name"
    if "name \<notin> set (entity_names entityColName (length ks))" for ks name
    using that by (intro buildEntityIds_kids_other) (auto simp: entity_names_iff)
  from assms(1,4) have m: "map_of shardMap shard = Some kids" by simp
  have a: "\<exists>bindVar. bindVars shard = Some bindVar
            \<and> (\<forall>i<length kids. bindVar (entityColName @ itoa i) = Some (KeyspaceIdV (kids ! i)))
            \<and> (\<forall>name. name \<notin> set (entity_names entityColName (length kids)) \<longrightarrow>
                  bindVar name = qBindVars name)"
    using bound other by (simp add: bindVars m)
  have b: "sqls shard = Some (insertSqlClause qSql (in_clause entityColName (length kids)))"
    by (simp add: sqls m)
  have c: "regroup entityColName (shards, sqls, bindVars) =
           map (\<lambda>(shard, kids). (shard, Some kids)) shardMap"
    if free: "\<forall>i. qBindVars (entityColName @ itoa i) = None"
  proof -
    have e: "entityIds_of entityColName (?bv ks) 0 = Some ks" for ks
    proof -
      have "entityColName @ itoa (length ks) \<notin> set (entity_names entityColName (length ks))"
        by (auto simp: entity_names_iff dest: itoa_inj)
      from other [OF this] free have "?bv ks (entityColName @ itoa (length ks)) = None" by simp
      from entityIds_of_read [of ks "?bv ks" entityColName 0, OF _ this] bound
      show ?thesis by simp
    qed
    have "map_of shardMap s = Some ks" if "(s, ks) \<in> set shardMap" for s ks
      using assms(1) that by simp
    then show ?thesis
      unfolding regroup_def shards bindVars by (auto simp: e)
  qed
  from a b c shards show ?thesis by blast
qed

theorem buildEntityIds_per_shard_witness:
  "fst (buildEntityIds two_shards ''select * from t'' ''id'' plain_bindVars) = [''-80'', ''80-'']
   \<and> fst (snd (buildEntityIds two_shards ''select * from t'' ''id'' plain_bindVars)) ''-80'' =
       Some ''select * from t where id in (:id0, :id1)''
   \<and> the (snd (snd (buildEntityIds two_shards ''select * from t'' ''id'' plain_bindVars)) ''-80'')
       ''id1'' = Some (KeyspaceIdV ''k2'')
   \<and> the (snd (snd (buildEntityIds two_shards ''select * from t'' ''id'' plain_bindVars)) ''-80'')
       ''x'' = Some (OtherV 1)
   \<and> regroup ''id'' (buildEntityIds two_shards ''select * from t'' ''id'' plain_bindVars) =
       [(''-80'', Some [''k1'', ''k2'']), (''80-'', Some [''k3''])]"
proof -
  define out where "out = buildEntityIds two_shards ''select * from t'' ''id'' plain_bindVars"
  have d: "distinct (map fst two_shards)" by (simp add: two_shards_def)
  have a: "isASCII ''select * from t''" by code_simp
  have o: "buildEntityIds two_shards ''select * from t'' ''id'' plain_bindVars =
           (fst out, fst (snd out), snd (snd out))" by (simp add: out_def)
  have m: "(''-80'', [''k1'', ''k2'']) \<in> set two_shards" by (simp add: two_shards_def)
  have free: "\<forall>i. plain_bindVars (''id'' @ itoa i) = None" by (simp add: plain_bindVars_def)
  have sql: "insertSqlClause ''select * from t'' (in_clause ''id'' 2) =
             ''select * from t where id in (:id0, :id1)''" by code_simp
  have names: "''x'' \<notin> set (entity_names ''id'' 2)" by (simp add: entity_names_iff)
  have x: "plain_bindVars ''x'' = Some (OtherV 1)" by (simp add: plain_bindVars_def)
  have i1: "''id1'' = ''id'' @ itoa 1" by code_simp
  have l2: "length [''k1'', ''k2''] = 2" by simp
  note t = buildEntityIds_per_shard [OF d a o m, unfolded l2]
  from t obtain bindVar where bv: "snd (snd out) ''-80'' = Some bindVar"
    "\<forall>i<2. bindVar (''id'' @ itoa i) = Some (KeyspaceIdV ([''k1'', ''k2''] ! i))"
    "\<forall>name. name \<notin> set (entity_names ''id'' 2) \<longrightarrow> bindVar name = plain_bindVars name"
    by blast
  from bv(2) have "bindVar (''id'' @ itoa 1) = Some (KeyspaceIdV ([''k1'', ''k2''] ! 1))"
    by (metis one_less_numeral_iff semiring_norm(76))
  then have r3: "the (snd (snd out) ''-80'') ''id1'' = Some (KeyspaceIdV ''k2'')"
    unfolding i1 [symmetric] bv(1) by simp
  from bv(3) names x have r4: "the (snd (snd out) ''-80'') ''x'' = Some (OtherV 1)"
    unfolding bv(1) by simp
  from t have r1: "fst out = [''-80'', ''80-'']" by (simp add: two_shards_def)
  from t have r2: "fst (snd out) ''-80'' = Some ''select * from t where id in (:id0, :id1)''"
    unfolding sql by blast
  from t free have r5:
    "regroup ''id'' out = [(''-80'', Some [''k1'', ''k2'']), (''80-'', Some [''k3''])]"
    by (simp add: two_shards_def)
  note r1 r2 r3 r4 r5
  then show ?thesis unfolding out_def by blast
qed

lemma itoa_digits: "itoa 0 = ''0''" "itoa 1 = ''1''" "itoa 2 = ''2''"
  by code_simp+

text \<open>
  The claim as stated fails when a bind variable of the query carries the name of an
  entity variable: its binding is not in the map of the shard.
\<close>

theorem buildEntityIds_clash:
  "clashing_bindVars ''id0'' = Some (OtherV 7)
   \<and> snd (snd (buildEntityIds [(''0'', [''k1''])] ''select * from t'' ''id'' clashing_bindVars)) ''0''
     \<noteq> None
   \<and> the (snd (snd (buildEntityIds [(''0'', [''k1''])] ''select * from t'' ''id''
        clashing_bindVars)) ''0'') ''id0'' = Some (KeyspaceIdV ''k1'')"
  by (simp add: clashing_bindVars_def buildEntityIds_def Let_def itoa_digits)

section \<open>The update function of AddShardReplicationRecord\<close>

lemma f_loop_others:
  "filter (\<lambda>l. TabletAlias l \<noteq> ta)
      (fst (AddShardReplicationRecord_f_loop IsZero ta parent rest links found)) =
   filter (\<lambda>l. TabletAlias l \<noteq> ta) links @ filter (\<lambda>l. TabletAlias l \<noteq> ta) rest"
  by (induction rest arbitrary: links found) auto

lemma f_loop_found:
  "snd (AddShardReplicationRecord_f_loop IsZero ta parent rest links found) =
   (found \<or> list_ex (\<lambda>l. TabletAlias l = ta) rest)"
  by (induction rest arbitrary: links found) auto

lemma f_loop_alias:
  "filter (\<lambda>l. TabletAlias l = ta)
      (fst (AddShardReplicationRecord_f_loop IsZero ta parent rest links found)) =
   filter (\<lambda>l. TabletAlias l = ta) links @
   (if \<not> found \<and> list_ex (\<lambda>l. TabletAlias l = ta) rest \<and> \<not> IsZero parent
    then [\<lparr>TabletAlias = ta, Parent = parent\<rparr>] else [])"
  by (induction rest arbitrary: links found) auto

text \<open>
  C10. After the update function of \<open>AddShardReplicationRecord\<close> has run, with a
  parent that is not zero the links hold exactly one link for the tablet alias, with
  the given parent (so duplicates are gone); with a zero parent they hold none. In
  both cases the links of all other aliases are there as before, in their order. The
  function returns no error.
\<close>

theorem AddShardReplicationRecord_f_links:
  "filter (\<lambda>l. TabletAlias l = tabletAlias)
      (ReplicationLinks (fst (AddShardReplicationRecord_f IsZero tabletAlias parent sr))) =
     (if IsZero parent then [] else [\<lparr>TabletAlias = tabletAlias, Parent = parent\<rparr>])
   \<and> filter (\<lambda>l. TabletAlias l \<noteq> tabletAlias)
      (ReplicationLinks (fst (AddShardReplicationRecord_f IsZero tabletAlias parent sr))) =
     filter (\<lambda>l. TabletAlias l \<noteq> tabletAlias) (ReplicationLinks sr)
   \<and> snd (AddShardReplicationRecord_f IsZero tabletAlias parent sr) = None"
proof -
  obtain links found where lf:
    "AddShardReplicationRecord_f_loop IsZero tabletAlias parent (ReplicationLinks sr) [] False = (links, found)"
    by (cases "AddShardReplicationRecord_f_loop IsZero tabletAlias parent (ReplicationLinks sr) [] False")
  have a: "filter (\<lambda>l. TabletAlias l = tabletAlias) links =
     (if list_ex (\<lambda>l. TabletAlias l = tabletAlias) (ReplicationLinks sr) \<and> \<not> IsZero parent
      then [\<lparr>TabletAlias = tabletAlias, Parent = parent\<rparr>] else [])"
    using f_loop_alias [of tabletAlias IsZero parent "ReplicationLinks sr" "[]" False] lf by simp
  have o: "filter (\<lambda>l. TabletAlias l \<noteq> tabletAlias) links =
     filter (\<lambda>l. TabletAlias l \<noteq> tabletAlias) (ReplicationLinks sr)"
    using f_loop_others [of tabletAlias IsZero parent "ReplicationLinks sr" "[]" False] lf by simp
  have f: "found = list_ex (\<lambda>l. TabletAlias l = tabletAlias) (ReplicationLinks sr)"
    using f_loop_found [of IsZero tabletAlias parent "ReplicationLinks sr" "[]" False] lf by simp
  show ?thesis
    using a o f lf by (simp add: AddShardReplicationRecord_f_def Let_def)
qed

theorem AddShardReplicationRecord_f_links_witness:
  "ReplicationLinks (fst (AddShardReplicationRecord_f (\<lambda>n. n = (0::nat)) 7 3
      \<lparr>ReplicationLinks =
         [\<lparr>TabletAlias = 5, Parent = 1\<rparr>, \<lparr>TabletAlias = 7, Parent = 1\<rparr>,
          \<lparr>TabletAlias = 6, Parent = 1\<rparr>, \<lparr>TabletAlias = 7, Parent = 2\<rparr>]\<rparr>)) =
     [\<lparr>TabletAlias = 5, Parent = 1\<rparr>, \<lparr>TabletAlias = 7, Parent = 3\<rparr>,
      \<lparr>TabletAlias = 6, Parent = 1\<rparr>]
   \<and> filter (\<lambda>l. TabletAlias l = 7)
       (ReplicationLinks (fst (AddShardReplicationRecord_f (\<lambda>n. n = (0::nat)) 7 3
          \<lparr>ReplicationLinks =
             [\<lparr>TabletAlias = 5, Parent = 1\<rparr>, \<lparr>TabletAlias = 7, Parent = 1\<rparr>,
              \<lparr>TabletAlias = 6, Parent = 1\<rparr>, \<lparr>TabletAlias = 7, Parent = 2\<rparr>]\<rparr>))) =
     [\<lparr>TabletAlias = 7, Parent = 3\<rparr>]"
  using AddShardReplicationRecord_f_links [of 7 "\<lambda>n. n = (0::nat)" 3
      "\<lparr>ReplicationLinks =
         [\<lparr>TabletAlias = 5, Parent = 1\<rparr>, \<lparr>TabletAlias = 7, Parent = 1\<rparr>,
          \<lparr>TabletAlias = 6, Parent = 1\<rparr>, \<lparr>TabletAlias = 7, Parent = 2\<rparr>]\<rparr>"]
  by (simp add: AddShardReplicationRecord_f_def)

end
